theory Spec2Isabelle
  imports Main "HOL-Library.Word" "HOL-Library.Multiset" "HOL-Library.Sublist"
begin

unbundle bit_operations_syntax

section \<open>Platform and data model\<close>

text \<open>
  The development follows \<^verbatim>\<open>src/huffman.cpp\<close>. The file format of the program is
  host-native, so the model fixes the widths of the common 64-bit ABIs: \<^verbatim>\<open>char\<close> is one
  byte, \<^verbatim>\<open>unsigned\<close> is 32 bits wide and wraps around, \<^verbatim>\<open>size_t\<close> is 64 bits wide,
  and integers are stored little-endian. Whether \<^verbatim>\<open>char\<close> is signed is left to the
  platform by C++ (signed on x86-64, unsigned on AArch64 Linux); every function whose
  result depends on the order of \<^verbatim>\<open>std::map<char, ...>\<close> therefore takes the flag
  \<open>sgd\<close>: \<open>True\<close> where \<^verbatim>\<open>char\<close> is signed.

  Streams are byte lists. The member variables of \<^verbatim>\<open>HuffmanCoding\<close> are passed and
  returned explicitly; \<^verbatim>\<open>main\<close> creates one object per run and calls one operation on
  it, so every operation starts from empty maps.
\<close>

type_synonym byte = "8 word"

type_synonym freq_map = "byte \<rightharpoonup> 32 word"

type_synonym code_map = "byte \<rightharpoonup> string"

text \<open>
  The program reports no error of its own after the files are open. What can go wrong
  is undefined behaviour: using a variable that a failed \<^verbatim>\<open>read\<close> left unset, and
  following a null \<^verbatim>\<open>shared_ptr\<close>. Both are outcomes of the model.
\<close>

datatype fault = IndeterminateValue | NullDereference

text \<open>
  A \<^verbatim>\<open>std::shared_ptr<HuffmanNode>\<close>: null, or a node with its four fields. Nodes are
  created once and never shared between two parents, so the tree is a value.
\<close>

datatype node_ptr =
    Null
  | Node (data: byte) (frequency: "32 word") (left: node_ptr) (right: node_ptr)

definition bind :: "fault + 'a \<Rightarrow> ('a \<Rightarrow> fault + 'b) \<Rightarrow> fault + 'b" where
  "bind x f = (case x of Inl e \<Rightarrow> Inl e | Inr v \<Rightarrow> f v)"

subsection \<open>Iteration order of \<^verbatim>\<open>std::map<char, T>\<close>\<close>

text \<open>
  \<^verbatim>\<open>std::map<char, T>\<close> iterates in ascending order of the key under \<^verbatim>\<open><\<close> on
  \<^verbatim>\<open>char\<close>. \<open>char_value\<close> is the value of a byte as a \<^verbatim>\<open>char\<close>, and \<open>char_order\<close>
  lists all 256 bytes in ascending \<^verbatim>\<open>char\<close> order.
\<close>

definition char_value :: "bool \<Rightarrow> byte \<Rightarrow> int" where
  "char_value sgd c = (if sgd then sint c else uint c)"

definition char_order :: "bool \<Rightarrow> byte list" where
  "char_order sgd =
     (if sgd then map word_of_nat [128..<256] @ map word_of_nat [0..<128]
      else map word_of_nat [0..<256])"

definition map_entries :: "bool \<Rightarrow> (byte \<rightharpoonup> 'v) \<Rightarrow> (byte \<times> 'v) list" where
  "map_entries sgd m = List.map_filter (\<lambda>c. map_option (Pair c) (m c)) (char_order sgd)"

section \<open>Compression\<close>

text \<open>
  \<^verbatim>\<open>buildFrequencyTable\<close> (lines 58 to 68): the map is cleared and the stream is read
  from its start; \<^verbatim>\<open>frequencyMap[character]++\<close> inserts 0 for a new key and adds 1 in
  \<^verbatim>\<open>unsigned\<close> arithmetic.
\<close>

fun count_loop :: "byte list \<Rightarrow> freq_map \<Rightarrow> freq_map" where
  "count_loop [] fm = fm"
| "count_loop (character # rest) fm =
     count_loop rest (fm(character \<mapsto> (case fm character of None \<Rightarrow> 0 | Some f \<Rightarrow> f) + 1))"

definition buildFrequencyTable :: "byte list \<Rightarrow> freq_map" where
  "buildFrequencyTable inputFile = count_loop inputFile Map.empty"

subsection \<open>The priority queue\<close>

text \<open>
  Modelled from the spec: \<^verbatim>\<open>std::priority_queue\<close> with \<^verbatim>\<open>CompareNodes\<close> is library
  code; the spec describes it as a min-priority structure keyed by frequency whose order
  among equal frequencies is unspecified but deterministic. The model keeps the queue
  as a list in ascending order of frequency (compared as \<^verbatim>\<open>unsigned\<close>) and inserts a
  node behind the nodes of equal frequency. The proofs below use of the queue only that
  \<open>push\<close> adds its argument and \<open>pop\<close> removes the top; the concrete inputs of the
  examples have no two nodes of equal frequency in the queue, so their trees do not
  depend on how ties are broken.
\<close>

type_synonym pqueue = "node_ptr list"

fun pq_push :: "node_ptr \<Rightarrow> pqueue \<Rightarrow> pqueue" where
  "pq_push n [] = [n]"
| "pq_push n (m # q) = (if frequency m > frequency n then n # m # q else m # pq_push n q)"

definition pq_top :: "pqueue \<Rightarrow> node_ptr" where
  "pq_top q = hd q"

definition pq_pop :: "pqueue \<Rightarrow> pqueue" where
  "pq_pop q = tl q"

function merge_loop :: "pqueue \<Rightarrow> pqueue" where
  "merge_loop pq =
     (if length pq > 1 then
        let left = pq_top pq; pq1 = pq_pop pq;
            right = pq_top pq1; pq2 = pq_pop pq1;
            newNode = Node 0x24 (frequency left + frequency right) left right
        in merge_loop (pq_push newNode pq2)
      else pq)"
  by pat_completeness auto
termination
proof (relation "measure length")
  show "wf (measure length)" by simp
next
  fix pq :: pqueue and x xa xb xc xd
  assume "1 < length pq" and "xa = pq_pop pq" and "xc = pq_pop xa"
  moreover have "length (pq_push n q) = Suc (length q)" for n q
    by (induction q) auto
  ultimately show "(pq_push xd xc, pq) \<in> measure length"
    by (simp add: pq_pop_def)
qed

declare merge_loop.simps [simp del]

text \<open>
  \<^verbatim>\<open>buildHuffmanTree\<close> (lines 70 to 115): one leaf per entry of the map, in the order
  of the map; null for an empty queue; the dummy parent for a single leaf; then the
  loop \<open>merge_loop\<close> above, whose sum of two frequencies wraps around as
  \<^verbatim>\<open>unsigned\<close> does. The payload of the nodes it creates is \<open>$\<close>, the byte 0x24.
\<close>

definition buildHuffmanTree :: "bool \<Rightarrow> freq_map \<Rightarrow> node_ptr" where
  "buildHuffmanTree sgd frequencyMap =
     (let pq = fold (\<lambda>(key, val) pq. pq_push (Node key val Null Null) pq)
                 (map_entries sgd frequencyMap) []
      in if pq = [] then Null
         else
           let pq = (if length pq = 1 then
                       let singleNode = pq_top pq; pq = pq_pop pq;
                           dummyParent = Node 0x24 (frequency singleNode) singleNode Null
                       in pq_push dummyParent pq
                     else pq)
           in pq_top (merge_loop pq))"

text \<open>
  \<^verbatim>\<open>generateCodes\<close> (lines 118 to 129): the table is the member \<^verbatim>\<open>huffmanCodes\<close>, threaded
  through the two recursive calls; \<^verbatim>\<open>compress\<close> starts it with the empty string.
\<close>

fun generateCodes :: "node_ptr \<Rightarrow> string \<Rightarrow> code_map \<Rightarrow> code_map" where
  "generateCodes Null code huffmanCodes = huffmanCodes"
| "generateCodes (Node d f l r) code huffmanCodes =
     (let huffmanCodes = (if l = Null \<and> r = Null then huffmanCodes(d \<mapsto> code) else huffmanCodes);
          huffmanCodes = generateCodes l (code @ ''0'') huffmanCodes
      in generateCodes r (code @ ''1'') huffmanCodes)"

subsection \<open>Header\<close>

text \<open>
  \<^verbatim>\<open>writeHeader\<close> (lines 131 to 141) writes the raw bytes of \<^verbatim>\<open>mapSize\<close> (a \<^verbatim>\<open>size_t\<close>,
  eight bytes), then for each entry of the map its key (one byte) and the raw bytes of
  its frequency (four bytes). \<open>to_le n v\<close> is the \<open>n\<close>-byte little-endian image of \<open>v\<close>,
  \<open>from_le\<close> reads one back.
\<close>

fun to_le :: "nat \<Rightarrow> nat \<Rightarrow> byte list" where
  "to_le 0 v = []"
| "to_le (Suc n) v = word_of_nat (v mod 256) # to_le n (v div 256)"

fun from_le :: "byte list \<Rightarrow> nat" where
  "from_le [] = 0"
| "from_le (b # bs) = unat b + 256 * from_le bs"

definition writeHeader :: "bool \<Rightarrow> freq_map \<Rightarrow> byte list" where
  "writeHeader sgd frequencyMap =
     (let mapSize = length (map_entries sgd frequencyMap)
      in to_le 8 mapSize @
         concat (map (\<lambda>(c, f). c # to_le 4 (unat f)) (map_entries sgd frequencyMap)))"

subsection \<open>Bit packing\<close>

text \<open>
  \<^verbatim>\<open>writeCompressedData\<close> (lines 143 to 173). The state of its loops is the
  \<^verbatim>\<open>unsigned char buffer\<close>, \<^verbatim>\<open>bitCount\<close> and the bytes put to the output so far.
  \<open>pack_code\<close> is the inner loop over the characters of one code, \<open>pack_loop\<close> the outer
  loop over the input; \<^verbatim>\<open>huffmanCodes[character]\<close> is the empty string for a byte
  without an entry.
\<close>

fun pack_code :: "string \<Rightarrow> byte \<times> nat \<times> byte list \<Rightarrow> byte \<times> nat \<times> byte list" where
  "pack_code [] st = st"
| "pack_code (bitc # code) (buffer, bitCount, out) =
     (let buffer = push_bit 1 buffer OR (of_char bitc - of_char CHR ''0'');
          bitCount = bitCount + 1
      in if bitCount = 8 then pack_code code (0, 0, out @ [buffer])
         else pack_code code (buffer, bitCount, out))"

fun pack_loop :: "code_map \<Rightarrow> byte list \<Rightarrow> byte \<times> nat \<times> byte list \<Rightarrow> byte \<times> nat \<times> byte list" where
  "pack_loop huffmanCodes [] st = st"
| "pack_loop huffmanCodes (character # rest) st =
     (let code = (case huffmanCodes character of None \<Rightarrow> [] | Some code \<Rightarrow> code)
      in pack_loop huffmanCodes rest (pack_code code st))"

definition writeCompressedData :: "code_map \<Rightarrow> byte list \<Rightarrow> byte list" where
  "writeCompressedData huffmanCodes inputFile =
     (case pack_loop huffmanCodes inputFile (0, 0, []) of
        (buffer, bitCount, out) \<Rightarrow>
          if bitCount > 0 then out @ [push_bit (8 - bitCount) buffer] else out)"

text \<open>
  \<^verbatim>\<open>compress\<close> (lines 176 to 216), once both files are open: nothing is written for an
  empty frequency table.
\<close>

definition compress :: "bool \<Rightarrow> byte list \<Rightarrow> byte list" where
  "compress sgd inputFile =
     (let frequencyMap = buildFrequencyTable inputFile
      in if map_entries sgd frequencyMap = [] then []
         else
           let treeRoot = buildHuffmanTree sgd frequencyMap;
               huffmanCodes = generateCodes treeRoot [] Map.empty
           in writeHeader sgd frequencyMap @ writeCompressedData huffmanCodes inputFile)"

section \<open>Decompression\<close>

text \<open>
  \<^verbatim>\<open>readHeader\<close> (lines 221 to 234). \<^verbatim>\<open>inputFile.read\<close> stores the bytes it can get and
  sets the fail bit when they are fewer than asked for; \<^verbatim>\<open>readHeader\<close> does not look at
  the state of the stream. \<^verbatim>\<open>mapSize\<close>, \<^verbatim>\<open>character\<close> and \<^verbatim>\<open>frequency\<close> are declared
  without an initial value, so after a short read the variable is unset, wholly or in
  part, and the statement that uses it next has undefined behaviour: the loop test for
  \<^verbatim>\<open>mapSize\<close>, the assignment to the map for the other two (\<open>read_pairs\<close> is the loop;
  a pair takes five bytes). The result is the table and the rest of the stream.
\<close>

fun read_pairs :: "nat \<Rightarrow> byte list \<Rightarrow> freq_map \<Rightarrow> fault + (freq_map \<times> byte list)" where
  "read_pairs 0 inputFile fm = Inr (fm, inputFile)"
| "read_pairs (Suc n) inputFile fm =
     (if length inputFile < 5 then Inl IndeterminateValue
      else
        let character = hd inputFile;
            frequency = word_of_nat (from_le (take 4 (tl inputFile)))
        in read_pairs n (drop 5 inputFile) (fm(character \<mapsto> frequency)))"

definition readHeader :: "byte list \<Rightarrow> fault + (freq_map \<times> byte list)" where
  "readHeader inputFile =
     (if length inputFile < 8 then Inl IndeterminateValue
      else
        let mapSize = from_le (take 8 inputFile)
        in read_pairs mapSize (drop 8 inputFile) Map.empty)"

text \<open>
  \<^verbatim>\<open>decodeData\<close> (lines 236 to 271). \<open>total_chars\<close> is its first loop: the sum of the
  frequencies, taken in \<^verbatim>\<open>long long\<close>, which 256 values below \<open>2\<^sup>3\<^sup>2\<close> cannot overflow.
  The state of the decoding loops is \<^verbatim>\<open>currentNode\<close>, \<^verbatim>\<open>decodedCount\<close> and the bytes put
  to the output. \<open>decode_bit\<close> is the body of the inner loop behind its \<^verbatim>\<open>break\<close> test:
  \<^verbatim>\<open>currentNode->left\<close> or \<^verbatim>\<open>currentNode->right\<close> dereferences the cursor, which is
  undefined when it is null; moving to a null child is not an error by itself.
  \<open>decode_byte\<close> is the inner loop, its argument \<open>Suc i\<close> standing for the loop variable
  \<open>i\<close>, from 7 down to 0; \<open>decode_loop\<close> is the outer loop over the bytes.
\<close>

definition total_chars :: "bool \<Rightarrow> freq_map \<Rightarrow> nat" where
  "total_chars sgd frequencyMap =
     fold (\<lambda>(c, f) totalChars. totalChars + unat f) (map_entries sgd frequencyMap) 0"

type_synonym decode_state = "node_ptr \<times> nat \<times> byte list"

fun decode_bit :: "node_ptr \<Rightarrow> bool \<Rightarrow> decode_state \<Rightarrow> fault + decode_state" where
  "decode_bit treeRoot b (Null, decodedCount, out) = Inl NullDereference"
| "decode_bit treeRoot b (Node d f l r, decodedCount, out) =
     (let currentNode = (if \<not> b then l else r)
      in case currentNode of
           Node d' f' Null Null \<Rightarrow> Inr (treeRoot, decodedCount + 1, out @ [d'])
         | _ \<Rightarrow> Inr (currentNode, decodedCount, out))"

fun decode_byte :: "node_ptr \<Rightarrow> nat \<Rightarrow> byte \<Rightarrow> nat \<Rightarrow> decode_state \<Rightarrow> fault + decode_state" where
  "decode_byte treeRoot totalChars byte 0 st = Inr st"
| "decode_byte treeRoot totalChars byte (Suc i) (currentNode, decodedCount, out) =
     (if decodedCount \<ge> totalChars then Inr (currentNode, decodedCount, out)
      else bind (decode_bit treeRoot (bit byte i) (currentNode, decodedCount, out))
             (decode_byte treeRoot totalChars byte i))"

fun decode_loop :: "node_ptr \<Rightarrow> nat \<Rightarrow> byte list \<Rightarrow> decode_state \<Rightarrow> fault + decode_state" where
  "decode_loop treeRoot totalChars [] st = Inr st"
| "decode_loop treeRoot totalChars (byte # rest) (currentNode, decodedCount, out) =
     (if decodedCount < totalChars then
        bind (decode_byte treeRoot totalChars byte 8 (currentNode, decodedCount, out))
          (decode_loop treeRoot totalChars rest)
      else Inr (currentNode, decodedCount, out))"

definition decodeData :: "bool \<Rightarrow> node_ptr \<Rightarrow> freq_map \<Rightarrow> byte list \<Rightarrow> fault + byte list" where
  "decodeData sgd treeRoot frequencyMap inputFile =
     (let totalChars = total_chars sgd frequencyMap
      in if totalChars = 0 then Inr []
         else bind (decode_loop treeRoot totalChars inputFile (treeRoot, 0, []))
                (\<lambda>(currentNode, decodedCount, out). Inr out))"

text \<open>\<^verbatim>\<open>decompress\<close> (lines 274 to 300), once both files are open.\<close>

definition decompress :: "bool \<Rightarrow> byte list \<Rightarrow> fault + byte list" where
  "decompress sgd inputFile =
     bind (readHeader inputFile)
       (\<lambda>(frequencyMap, rest).
          let treeRoot = buildHuffmanTree sgd frequencyMap
          in decodeData sgd treeRoot frequencyMap rest)"

section \<open>Notions used to state and prove the properties\<close>

text \<open>
  The leaves of a tree with their frequencies; a node is a leaf when both of its
  children are null, which is the test \<^verbatim>\<open>generateCodes\<close> and \<^verbatim>\<open>decodeData\<close> make.
\<close>

definition is_leaf :: "node_ptr \<Rightarrow> bool" where
  "is_leaf t = (case t of Node d f Null Null \<Rightarrow> True | _ \<Rightarrow> False)"

fun leaves :: "node_ptr \<Rightarrow> (byte \<times> 32 word) multiset" where
  "leaves Null = {#}"
| "leaves (Node d f l r) = (if l = Null \<and> r = Null then {#(d, f)#} else leaves l + leaves r)"

text \<open>The assignments \<^verbatim>\<open>generateCodes\<close> makes, in the order it makes them.\<close>

fun code_list :: "node_ptr \<Rightarrow> string \<Rightarrow> (byte \<times> string) list" where
  "code_list Null code = []"
| "code_list (Node d f l r) code =
     (if l = Null \<and> r = Null then [(d, code)] else []) @
     code_list l (code @ ''0'') @ code_list r (code @ ''1'')"

text \<open>Following a path of bits from a node: \<open>False\<close> is left, \<open>True\<close> is right.\<close>

fun walk :: "node_ptr \<Rightarrow> bool list \<Rightarrow> node_ptr" where
  "walk t [] = t"
| "walk Null (b # bs) = Null"
| "walk (Node d f l r) (b # bs) = walk (if b then r else l) bs"

text \<open>The bits of a code string, of a byte (most significant first) and of a stream.\<close>

definition code_bits :: "string \<Rightarrow> bool list" where
  "code_bits code = map (\<lambda>ch. ch = CHR ''1'') code"

definition byte_bits :: "byte \<Rightarrow> bool list" where
  "byte_bits byte = map (bit byte) (rev [0..<8])"

definition bits_of_bytes :: "byte list \<Rightarrow> bool list" where
  "bits_of_bytes bs = concat (map byte_bits bs)"

definition code_of :: "code_map \<Rightarrow> byte \<Rightarrow> string" where
  "code_of huffmanCodes character =
     (case huffmanCodes character of None \<Rightarrow> [] | Some code \<Rightarrow> code)"

text \<open>The bits \<^verbatim>\<open>writeCompressedData\<close> is to pack: the codes of the input bytes, in order.\<close>

definition encode :: "code_map \<Rightarrow> byte list \<Rightarrow> bool list" where
  "encode huffmanCodes inputFile = concat (map (\<lambda>c. code_bits (code_of huffmanCodes c)) inputFile)"

text \<open>
  The two nested loops of \<^verbatim>\<open>decodeData\<close> seen as one loop over the bits of the stream
  (\<open>decode_loop_bits\<close> below shows that it is the same computation).
\<close>

fun decode_bits :: "node_ptr \<Rightarrow> nat \<Rightarrow> bool list \<Rightarrow> decode_state \<Rightarrow> fault + decode_state" where
  "decode_bits treeRoot totalChars [] st = Inr st"
| "decode_bits treeRoot totalChars (b # bs) (currentNode, decodedCount, out) =
     (if decodedCount \<ge> totalChars then Inr (currentNode, decodedCount, out)
      else bind (decode_bit treeRoot b (currentNode, decodedCount, out))
             (decode_bits treeRoot totalChars bs))"

text \<open>The leaves held by the trees of a queue, the queue after the first loop of
  \<^verbatim>\<open>buildHuffmanTree\<close>, and the code table \<^verbatim>\<open>compress\<close> builds from a frequency table.\<close>

definition pq_leaves :: "pqueue \<Rightarrow> (byte \<times> 32 word) multiset" where
  "pq_leaves q = sum_mset (image_mset leaves (mset q))"

definition leaf_queue :: "(byte \<times> 32 word) list \<Rightarrow> pqueue" where
  "leaf_queue es = fold (\<lambda>(key, val) pq. pq_push (Node key val Null Null) pq) es []"

definition code_table :: "bool \<Rightarrow> freq_map \<Rightarrow> code_map" where
  "code_table sgd frequencyMap = generateCodes (buildHuffmanTree sgd frequencyMap) [] Map.empty"

text \<open>One assignment \<^verbatim>\<open>m[key] = value\<close>, and the bytes of one pair of the header.\<close>

definition put_entry :: "byte \<times> 'v \<Rightarrow> (byte \<rightharpoonup> 'v) \<Rightarrow> (byte \<rightharpoonup> 'v)" where
  "put_entry e m = m(fst e \<mapsto> snd e)"

definition header_pair :: "byte \<times> 32 word \<Rightarrow> byte list" where
  "header_pair p = fst p # to_le 4 (unat (snd p))"

text \<open>The symbol bytes of a header, read back from its bytes: one every five bytes
  behind the eight bytes of the count.\<close>

fun pair_symbols :: "byte list \<Rightarrow> byte list" where
  "pair_symbols (c # f0 # f1 # f2 # f3 # rest) = c # pair_symbols rest"
| "pair_symbols _ = []"

definition header_symbols :: "byte list \<Rightarrow> byte list" where
  "header_symbols h = pair_symbols (drop 8 h)"

section \<open>The order of a \<^verbatim>\<open>std::map<char, T>\<close>\<close>

lemma unat_byte_of_nat: "n < 256 \<Longrightarrow> unat (word_of_nat n :: byte) = n"
  by (simp add: unat_of_nat)

lemma set_char_order_unsigned: "set (map word_of_nat [0..<256] :: byte list) = UNIV"
proof -
  have "w \<in> set (map word_of_nat [0..<256] :: byte list)" for w :: byte
  proof -
    have "unat w < 256" using unsigned_less [of w, where 'a = nat] by simp
    moreover have "word_of_nat (unat w) = w" by simp
    ultimately show ?thesis by (metis (no_types) atLeastLessThan_iff image_eqI le0 set_map set_upt)
  qed
  then show ?thesis by blast
qed

lemma set_char_order [simp]: "set (char_order sgd) = UNIV"
proof (cases sgd)
  case False
  then show ?thesis by (simp only: char_order_def if_False set_char_order_unsigned)
next
  case True
  have "set [128..<256] \<union> set [0..<128] = set [0..<256::nat]"
    by (auto simp del: upt_rec_numeral)
  then have "set (map word_of_nat [128..<256] @ map word_of_nat [0..<128] :: byte list) =
     set (map word_of_nat [0..<256])"
    by (simp only: set_append set_map image_Un [symmetric])
  with True show ?thesis by (simp only: char_order_def if_True set_char_order_unsigned)
qed

lemma inj_on_byte_of_nat: "inj_on (word_of_nat :: nat \<Rightarrow> byte) {0..<256}"
  by (rule inj_on_inverseI [where g = unat]) (simp add: unat_byte_of_nat)

lemma distinct_char_order [simp]: "distinct (char_order sgd)"
proof (cases sgd)
  case False
  have "distinct (map word_of_nat [0..<256] :: byte list)"
    by (simp only: distinct_map) (simp add: inj_on_byte_of_nat del: upt_rec_numeral)
  with False show ?thesis by (simp only: char_order_def if_False)
next
  case True
  have d: "distinct ([128..<256] @ [0..<128::nat])" by (simp del: upt_rec_numeral) 
  have s: "set ([128..<256] @ [0..<128::nat]) = {0..<256}"
    by (auto simp del: upt_rec_numeral)
  have "distinct (map word_of_nat ([128..<256] @ [0..<128]) :: byte list)"
    unfolding distinct_map s using d inj_on_byte_of_nat by blast
  with True show ?thesis by (simp only: char_order_def if_True map_append)
qed

lemma char_value_unsigned: "n < 256 \<Longrightarrow> char_value False (word_of_nat n) = int n"
  by (simp add: char_value_def uint_nat unat_byte_of_nat)

lemma char_value_signed_low: "n < 128 \<Longrightarrow> char_value True (word_of_nat n) = int n"
proof -
  assume n: "n < 128"
  have "sint (word_of_int (int n) :: byte) = signed_take_bit 7 (int n)"
    by (simp only: sint_sbintrunc') simp
  also have "\<dots> = int n"
    using n by (intro signed_take_bit_int_eq_self) auto
  finally show ?thesis by (simp add: char_value_def)
qed

lemma char_value_signed_high:
  assumes "128 \<le> n" "n < 256"
  shows "char_value True (word_of_nat n) = int n - 256"
proof -
  have "(word_of_int (int n) :: byte) = word_of_int (int n - 256)"
    by simp
  then have "sint (word_of_int (int n) :: byte) = signed_take_bit 7 (int n - 256)"
    by (simp only: sint_sbintrunc') simp
  also have "\<dots> = int n - 256"
    using assms by (intro signed_take_bit_int_eq_self) auto
  finally show ?thesis by (simp add: char_value_def)
qed

lemma sorted_char_order:
  "sorted_wrt (\<lambda>a b. char_value sgd a < char_value sgd b) (char_order sgd)"
proof (cases sgd)
  case False
  have "sorted_wrt (\<lambda>a b. char_value False (word_of_nat a) < char_value False (word_of_nat b)) [0..<256]"
    by (rule sorted_wrt_mono_rel [of _ "(<)"]) (simp_all add: char_value_unsigned del: upt_rec_numeral)
  with False show ?thesis
    by (simp only: char_order_def if_False sorted_wrt_map)
next
  case True
  let ?R = "\<lambda>a b. char_value True (word_of_nat a) < char_value True (word_of_nat b)"
  have 1: "sorted_wrt ?R [128..<256]"
    by (rule sorted_wrt_mono_rel [of _ "(<)"])
      (simp_all add: char_value_signed_high del: upt_rec_numeral)
  have 2: "sorted_wrt ?R [0..<128]"
    by (rule sorted_wrt_mono_rel [of _ "(<)"])
      (simp_all add: char_value_signed_low del: upt_rec_numeral)
  have 3: "\<forall>x\<in>set [128..<256]. \<forall>y\<in>set [0..<128]. ?R x y"
    by (simp add: char_value_signed_high char_value_signed_low del: upt_rec_numeral)
  from 1 2 3 have "sorted_wrt ?R ([128..<256] @ [0..<128])"
    by (simp only: sorted_wrt_append simp_thms)
  with True show ?thesis
    by (simp only: char_order_def if_True sorted_wrt_map map_append [symmetric])
qed

subsection \<open>The entries of a map\<close>

lemma map_fst_map_filter:
  "map fst (List.map_filter (\<lambda>c. map_option (Pair c) (m c)) xs) = filter (\<lambda>c. m c \<noteq> None) xs"
  by (induction xs) (auto simp: List.map_filter_simps split: option.splits)

lemma set_map_filter_entries:
  "set (List.map_filter (\<lambda>c. map_option (Pair c) (m c)) xs) = {(c, v). c \<in> set xs \<and> m c = Some v}"
  by (induction xs) (auto simp: List.map_filter_simps split: option.splits)

lemma map_fst_map_entries:
  "map fst (map_entries sgd m) = filter (\<lambda>c. m c \<noteq> None) (char_order sgd)"
  unfolding map_entries_def by (rule map_fst_map_filter)

lemma set_map_entries [simp]: "set (map_entries sgd m) = {(c, v). m c = Some v}"
  unfolding map_entries_def by (simp add: set_map_filter_entries)

lemma distinct_map_entries [simp]: "distinct (map fst (map_entries sgd m))"
  by (simp add: map_fst_map_entries)

lemma map_of_map_entries [simp]: "map_of (map_entries sgd m) = m"
proof
  fix c
  show "map_of (map_entries sgd m) c = m c"
  proof (cases "m c")
    case None
    then have "c \<notin> fst ` set (map_entries sgd m)" by (auto simp: image_iff)
    then show ?thesis using None by (simp add: map_of_eq_None_iff)
  next
    case (Some v)
    then have "(c, v) \<in> set (map_entries sgd m)" by simp
    then show ?thesis using Some by (simp add: map_of_is_SomeI)
  qed
qed

lemma sorted_map_entries:
  "sorted_wrt (\<lambda>a b. char_value sgd a < char_value sgd b) (map fst (map_entries sgd m))"
  unfolding map_fst_map_entries by (rule sorted_wrt_filter) (rule sorted_char_order)

lemma map_entries_empty_iff [simp]: "map_entries sgd m = [] \<longleftrightarrow> m = Map.empty"
proof
  assume "map_entries sgd m = []"
  then have "map_of (map_entries sgd m) = Map.empty" by (simp del: map_of_map_entries)
  then show "m = Map.empty" by simp
next
  assume "m = Map.empty"
  then have "set (map_entries sgd m) = {}" by simp
  then show "map_entries sgd m = []" by (simp del: set_map_entries)
qed

lemma length_map_entries: "length (map_entries sgd m) = card (dom m)"
proof -
  have "card (dom m) = card (set (map fst (map_entries sgd m)))"
    by (rule arg_cong [where f = card]) (auto simp: image_iff)
  also have "\<dots> = length (map fst (map_entries sgd m))"
    by (rule distinct_card) simp
  finally show ?thesis by simp
qed

lemma distinct_set_singleton:
  assumes "distinct xs" "set xs = {x}"
  shows "xs = [x]"
proof (cases xs)
  case Nil
  with assms show ?thesis by simp
next
  case (Cons y ys)
  with assms have "y = x" "set ys \<subseteq> {x}" "x \<notin> set ys" by auto
  then have "ys = []" by (cases ys) auto
  with Cons \<open>y = x\<close> show ?thesis by simp
qed

lemma map_entries_singleton [simp]: "map_entries sgd [c \<mapsto> v] = [(c, v)]"
proof -
  have "set (map_entries sgd [c \<mapsto> v]) = {(c, v)}" by (auto split: if_splits)
  moreover have "distinct (map_entries sgd [c \<mapsto> v])"
    using distinct_map_entries [of sgd "[c \<mapsto> v]"] by (simp only: distinct_map)
  ultimately show ?thesis by (rule distinct_set_singleton [rotated])
qed


section \<open>The header\<close>

lemma from_le_to_le: "from_le (to_le n v) = v mod 256 ^ n"
proof (induction n arbitrary: v)
  case 0
  then show ?case by simp
next
  case (Suc n)
  have "unat (word_of_nat (v mod 256) :: byte) = v mod 256"
    by (simp add: unat_byte_of_nat)
  then show ?case
    by (simp add: Suc mod_mult2_eq)
qed

lemma length_to_le [simp]: "length (to_le n v) = n"
  by (induction n arbitrary: v) auto

lemma put_entry_pair [simp]: "put_entry (k, v) m = m(k \<mapsto> v)"
  by (simp add: put_entry_def)

lemma header_pair_pair: "header_pair (c, f) = c # to_le 4 (unat f)"
  by (simp add: header_pair_def)

lemma fold_put_entry_distinct:
  "distinct (map fst xs) \<Longrightarrow> fold put_entry xs m0 = m0 ++ map_of xs"
proof (induction xs arbitrary: m0)
  case Nil
  then show ?case by simp
next
  case (Cons x xs)
  obtain k v where x: "x = (k, v)" by (cases x)
  from Cons.prems x have k: "k \<notin> fst ` set xs" and d: "distinct (map fst xs)" by auto
  from k have "map_of xs k = None" by (simp add: map_of_eq_None_iff)
  then have "m0(k \<mapsto> v) ++ map_of xs = m0 ++ (map_of xs)(k \<mapsto> v)"
    by (intro ext) (auto simp: map_add_def split: option.splits)
  moreover have "fold put_entry (x # xs) m0 = fold put_entry xs (m0(k \<mapsto> v))"
    by (simp add: x)
  moreover note Cons.IH [OF d, of "m0(k \<mapsto> v)"]
  ultimately show ?case by (simp only: x map_of.simps fst_conv snd_conv)
qed

lemma fold_put_entry_map_entries: "fold put_entry (map_entries sgd m) Map.empty = m"
  by (simp add: fold_put_entry_distinct)

lemma read_pairs_header_pairs:
  "read_pairs (length es) (concat (map header_pair es) @ rest) fm =
     Inr (fold put_entry es fm, rest)"
proof (induction es arbitrary: fm)
  case Nil
  then show ?case by simp
next
  case (Cons e es)
  obtain c f where e: "e = (c, f)" by (cases e)
  have "unat f mod 256 ^ 4 = unat f"
    using unsigned_less [of f, where 'a = nat] by simp
  then have "(word_of_nat (from_le (to_le 4 (unat f))) :: 32 word) = f"
    by (simp only: from_le_to_le) simp
  then have "read_pairs (Suc (length es)) ((c # to_le 4 (unat f)) @ concat (map header_pair es) @ rest) fm
      = read_pairs (length es) (concat (map header_pair es) @ rest) (put_entry e fm)"
    by (simp add: e del: to_le.simps from_le.simps)
  also have "\<dots> = Inr (fold put_entry es (put_entry e fm), rest)"
    by (rule Cons.IH)
  finally show ?case
    by (simp only: e header_pair_pair list.map concat.simps length_Cons fold_simps comp_apply
        append_assoc)
qed

lemma writeHeader_eq:
  "writeHeader sgd fm =
     to_le 8 (length (map_entries sgd fm)) @ concat (map header_pair (map_entries sgd fm))"
proof -
  have "(\<lambda>(c, f). c # to_le 4 (unat f)) = header_pair"
    by (auto simp: header_pair_def fun_eq_iff simp del: to_le.simps)
  then show ?thesis by (simp add: writeHeader_def Let_def del: to_le.simps)
qed

lemma length_char_order: "length (char_order sgd) = 256"
  by (cases sgd) (simp_all add: char_order_def del: upt_rec_numeral)

lemma length_map_entries_le: "length (map_entries sgd m) \<le> 256"
proof -
  have "length (map fst (map_entries sgd m)) \<le> length (char_order sgd)"
    unfolding map_fst_map_entries by (rule length_filter_le)
  then show ?thesis by (simp add: length_char_order)
qed

lemma readHeader_writeHeader_append:
  "readHeader (writeHeader sgd fm @ rest) = Inr (fm, rest)"
proof -
  let ?es = "map_entries sgd fm"
  have "length ?es mod 256 ^ 8 = length ?es"
    using length_map_entries_le [of sgd fm] by simp
  then have n: "from_le (to_le 8 (length ?es)) = length ?es"
    by (simp only: from_le_to_le)
  show ?thesis
    by (simp add: readHeader_def writeHeader_eq n read_pairs_header_pairs Let_def
        fold_put_entry_map_entries del: to_le.simps from_le.simps)
qed

lemma read_pairs_short:
  "length s < 5 * n \<Longrightarrow> read_pairs n s fm = Inl IndeterminateValue"
  by (induction n arbitrary: s fm) (auto simp: Let_def)

lemma read_pairs_enough:
  "5 * n \<le> length s \<Longrightarrow> \<exists>fm'. read_pairs n s fm = Inr (fm', drop (5 * n) s)"
proof (induction n arbitrary: s fm)
  case 0
  then show ?case by simp
next
  case (Suc n)
  then have "5 * n \<le> length (drop 5 s)" by simp
  from Suc.IH [OF this] Suc.prems show ?case
    by (auto simp: Let_def add.commute)
qed


section \<open>Trees and code lists\<close>

lemma is_leaf_simps [simp]:
  "is_leaf Null = False"
  "is_leaf (Node d f l r) = (l = Null \<and> r = Null)"
  by (auto simp: is_leaf_def split: node_ptr.splits)

lemma is_leaf_iff: "is_leaf t \<longleftrightarrow> (\<exists>d f. t = Node d f Null Null)"
  by (cases t) auto

lemma walk_Null [simp]: "walk Null bs = Null"
  by (cases bs) auto

lemma walk_append: "walk t (xs @ ys) = walk (walk t xs) ys"
proof (induction xs arbitrary: t)
  case Nil
  then show ?case by simp
next
  case (Cons x xs)
  then show ?case by (cases t) auto
qed

lemma walk_leaf: "is_leaf t \<Longrightarrow> bs \<noteq> [] \<Longrightarrow> walk t bs = Null"
  by (cases bs; cases t) auto

lemma code_bits_simps [simp]:
  "code_bits [] = []"
  "code_bits (ch # w) = (ch = CHR ''1'') # code_bits w"
  "code_bits (v @ w) = code_bits v @ code_bits w"
  by (simp_all add: code_bits_def)

lemma length_code_bits [simp]: "length (code_bits w) = length w"
  by (simp add: code_bits_def)

lemma code_list_walk:
  "(d, w) \<in> set (code_list t code) \<Longrightarrow>
   \<exists>w'. w = code @ w' \<and> set w' \<subseteq> {CHR ''0'', CHR ''1''} \<and>
        (\<exists>f. walk t (code_bits w') = Node d f Null Null)"
proof (induction t arbitrary: code)
  case Null
  then show ?case by simp
next
  case (Node d' f' l r)
  from Node.prems consider
      (leaf) "l = Null" "r = Null" "d = d'" "w = code"
    | (left) "(d, w) \<in> set (code_list l (code @ ''0''))"
    | (right) "(d, w) \<in> set (code_list r (code @ ''1''))"
    by (auto split: if_splits)
  then show ?case
  proof cases
    case leaf
    then show ?thesis by simp
  next
    case left
    from Node.IH(1) [OF this] obtain w' f where
      "w = (code @ ''0'') @ w'" "set w' \<subseteq> {CHR ''0'', CHR ''1''}"
      "walk l (code_bits w') = Node d f Null Null" by blast
    then have "w = code @ (CHR ''0'' # w')" "set (CHR ''0'' # w') \<subseteq> {CHR ''0'', CHR ''1''}"
      "walk (Node d' f' l r) (code_bits (CHR ''0'' # w')) = Node d f Null Null" by simp_all
    then show ?thesis by blast
  next
    case right
    from Node.IH(2) [OF this] obtain w' f where
      "w = (code @ ''1'') @ w'" "set w' \<subseteq> {CHR ''0'', CHR ''1''}"
      "walk r (code_bits w') = Node d f Null Null" by blast
    then have "w = code @ (CHR ''1'' # w')" "set (CHR ''1'' # w') \<subseteq> {CHR ''0'', CHR ''1''}"
      "walk (Node d' f' l r) (code_bits (CHR ''1'' # w')) = Node d f Null Null" by simp_all
    then show ?thesis by blast
  qed
qed

lemma generateCodes_fold:
  "generateCodes t code hc = fold put_entry (code_list t code) hc"
  by (induction t arbitrary: code hc) (simp_all add: Let_def)

lemma keys_code_list:
  "image_mset fst (mset (code_list t code)) = image_mset fst (leaves t)"
  by (induction t arbitrary: code) auto

lemma walk_leaf_in_leaves:
  "walk t bs = Node d f Null Null \<Longrightarrow> (d, f) \<in># leaves t"
proof (induction t bs rule: walk.induct)
  case (1 t)
  then show ?case by simp
next
  case (2 b bs)
  then show ?case by simp
next
  case (3 d' f' l r b bs)
  then have "\<not> (l = Null \<and> r = Null)" by (auto split: if_splits)
  with 3 show ?case by (auto split: if_splits)
qed

subsection \<open>The queue\<close>

lemma mset_pq_push [simp]: "mset (pq_push n q) = add_mset n (mset q)"
  by (induction q) auto

lemma set_pq_push [simp]: "set (pq_push n q) = insert n (set q)"
  by (induction q) auto

lemma length_pq_push [simp]: "length (pq_push n q) = Suc (length q)"
  by (induction q) auto

lemma merge_loop_Nil [simp]: "merge_loop [] = []"
  by (simp add: merge_loop.simps)

lemma merge_loop_single [simp]: "merge_loop [a] = [a]"
  by (simp add: merge_loop.simps)

lemma merge_loop_step:
  "merge_loop (a # b # q) = merge_loop (pq_push (Node 0x24 (frequency a + frequency b) a b) q)"
  by (subst merge_loop.simps) (simp add: pq_top_def pq_pop_def Let_def)

lemma pq_leaves_simps [simp]:
  "pq_leaves [] = {#}"
  "pq_leaves (a # q) = leaves a + pq_leaves q"
  "pq_leaves (pq_push a q) = leaves a + pq_leaves q"
  by (simp_all add: pq_leaves_def)

lemma merge_loop_invariant:
  "Null \<notin> set q \<Longrightarrow>
   pq_leaves (merge_loop q) = pq_leaves q \<and> Null \<notin> set (merge_loop q) \<and>
   length (merge_loop q) = min 1 (length q)"
proof (induction "length q" arbitrary: q rule: less_induct)
  case less
  show ?case
  proof (cases q)
    case Nil
    then show ?thesis by simp
  next
    case (Cons a q1)
    show ?thesis
    proof (cases q1)
      case Nil
      with Cons less.prems show ?thesis by simp
    next
      case (Cons b q2)
      let ?n = "Node 0x24 (frequency a + frequency b) a b"
      from less.prems \<open>q = a # q1\<close> Cons have ab: "a \<noteq> Null" "b \<noteq> Null" "Null \<notin> set q2"
        by auto
      have "length (pq_push ?n q2) < length q" using \<open>q = a # q1\<close> Cons by simp
      moreover have "Null \<notin> set (pq_push ?n q2)" using ab by simp
      ultimately have IH: "pq_leaves (merge_loop (pq_push ?n q2)) = pq_leaves (pq_push ?n q2)"
        "Null \<notin> set (merge_loop (pq_push ?n q2))"
        "length (merge_loop (pq_push ?n q2)) = min 1 (length (pq_push ?n q2))"
        using less.hyps by blast+
      have "leaves ?n = leaves a + leaves b" using ab by simp
      with IH show ?thesis
        by (simp add: \<open>q = a # q1\<close> Cons merge_loop_step)
    qed
  qed
qed

lemma merge_loop_root:
  "2 \<le> length q \<Longrightarrow> Null \<notin> set q \<Longrightarrow>
   \<exists>f l r. merge_loop q = [Node 0x24 f l r] \<and> l \<noteq> Null \<and> r \<noteq> Null"
proof (induction "length q" arbitrary: q rule: less_induct)
  case less
  from less.prems(1) obtain a b q2 where q: "q = a # b # q2"
    by (cases q; cases "tl q") auto
  let ?n = "Node 0x24 (frequency a + frequency b) a b"
  from less.prems(2) q have ab: "a \<noteq> Null" "b \<noteq> Null" "Null \<notin> set q2" by auto
  show ?case
  proof (cases q2)
    case Nil
    with q ab show ?thesis by (simp add: merge_loop_step)
  next
    case (Cons c q3)
    have "length (pq_push ?n q2) < length q" "2 \<le> length (pq_push ?n q2)"
      "Null \<notin> set (pq_push ?n q2)"
      using q Cons ab by simp_all
    from less.hyps [OF this] show ?thesis by (simp add: q merge_loop_step)
  qed
qed


subsection \<open>The tree builder\<close>

lemma mset_fold_push:
  "mset (fold (\<lambda>(key, val) pq. pq_push (Node key val Null Null) pq) es q) =
     image_mset (\<lambda>(k, v). Node k v Null Null) (mset es) + mset q"
  by (induction es arbitrary: q) (auto simp: case_prod_beta)

lemma mset_leaf_queue:
  "mset (leaf_queue es) = image_mset (\<lambda>(k, v). Node k v Null Null) (mset es)"
  by (simp add: leaf_queue_def mset_fold_push)

lemma length_leaf_queue [simp]: "length (leaf_queue es) = length es"
  using arg_cong [OF mset_leaf_queue, of size es] by simp

lemma leaf_queue_nonnull [simp]: "Null \<notin> set (leaf_queue es)"
proof -
  have "set (leaf_queue es) = set_mset (mset (leaf_queue es))" by simp
  also have "\<dots> = (\<lambda>(k, v). Node k v Null Null) ` set es"
    by (simp only: mset_leaf_queue set_image_mset set_mset_mset)
  finally show ?thesis by auto
qed

lemma pq_leaves_leaf_queue [simp]: "pq_leaves (leaf_queue es) = mset es"
proof -
  have "image_mset leaves (image_mset (\<lambda>(k, v). Node k v Null Null) (mset es)) =
        image_mset (\<lambda>e. {#e#}) (mset es)"
    by (simp add: multiset.map_comp comp_def case_prod_beta)
  then show ?thesis by (simp add: pq_leaves_def mset_leaf_queue)
qed

lemma buildHuffmanTree_eq:
  "buildHuffmanTree sgd fm =
     (let pq = leaf_queue (map_entries sgd fm)
      in if pq = [] then Null
         else pq_top (merge_loop
           (if length pq = 1 then [Node 0x24 (frequency (pq_top pq)) (pq_top pq) Null] else pq)))"
proof -
  have "length pq = 1 \<Longrightarrow> pq_push n (pq_pop pq) = [n]" for n pq
    by (cases pq) (auto simp: pq_pop_def)
  then show ?thesis
    by (simp add: buildHuffmanTree_def leaf_queue_def Let_def)
qed

lemma buildHuffmanTree_cases:
  obtains (empty) "fm = Map.empty" "buildHuffmanTree sgd fm = Null"
  | (single) a where "leaf_queue (map_entries sgd fm) = [a]" "a \<noteq> Null"
      "buildHuffmanTree sgd fm = Node 0x24 (frequency a) a Null"
  | (many) f l r where "2 \<le> length (map_entries sgd fm)"
      "merge_loop (leaf_queue (map_entries sgd fm)) = [Node 0x24 f l r]"
      "l \<noteq> Null" "r \<noteq> Null" "buildHuffmanTree sgd fm = Node 0x24 f l r"
proof -
  let ?q = "leaf_queue (map_entries sgd fm)"
  have len: "length ?q = length (map_entries sgd fm)" by simp
  have nn: "Null \<notin> set ?q" by simp
  consider "length ?q = 0" | "length ?q = 1" | "2 \<le> length ?q" by linarith
  then show thesis
  proof cases
    case 1
    then have "fm = Map.empty" by simp
    moreover from 1 have "buildHuffmanTree sgd fm = Null"
      by (simp add: buildHuffmanTree_eq Let_def del: length_leaf_queue)
    ultimately show ?thesis by (rule empty)
  next
    case 2
    then obtain a where a: "?q = [a]" by (cases ?q) auto
    with nn have "a \<noteq> Null" by auto
    moreover from a have "buildHuffmanTree sgd fm = Node 0x24 (frequency a) a Null"
      by (simp add: buildHuffmanTree_eq Let_def pq_top_def del: length_leaf_queue)
    ultimately show ?thesis using a by (intro single)
  next
    case 3
    from merge_loop_root [OF 3 nn] obtain f l r where
      m: "merge_loop ?q = [Node 0x24 f l r]" "l \<noteq> Null" "r \<noteq> Null" by blast
    from 3 have "?q \<noteq> []" "length ?q \<noteq> 1" by (auto simp del: length_leaf_queue)
    then have "buildHuffmanTree sgd fm = Node 0x24 f l r"
      using m(1) by (simp add: buildHuffmanTree_eq Let_def pq_top_def del: length_leaf_queue)
    moreover from 3 have "2 \<le> length (map_entries sgd fm)" by simp
    ultimately show ?thesis using m by (rule many [rotated -1])
  qed
qed

lemma leaves_buildHuffmanTree:
  "leaves (buildHuffmanTree sgd fm) = mset (map_entries sgd fm)"
proof (cases rule: buildHuffmanTree_cases [of fm sgd])
  case empty
  then show ?thesis by simp
next
  case (single a)
  have "pq_leaves (leaf_queue (map_entries sgd fm)) = leaves a"
    by (simp only: single(1)) simp
  moreover have "pq_leaves (leaf_queue (map_entries sgd fm)) = mset (map_entries sgd fm)"
    by simp
  ultimately have "leaves a = mset (map_entries sgd fm)" by simp
  then show ?thesis using single(2,3) by simp
next
  case (many f l r)
  have "pq_leaves (merge_loop (leaf_queue (map_entries sgd fm))) = mset (map_entries sgd fm)"
    using merge_loop_invariant [of "leaf_queue (map_entries sgd fm)"] by simp
  then show ?thesis using many by (simp only: pq_leaves_simps) simp
qed

lemma buildHuffmanTree_root:
  "fm \<noteq> Map.empty \<Longrightarrow> \<exists>f l r. buildHuffmanTree sgd fm = Node 0x24 f l r \<and> l \<noteq> Null"
  by (cases rule: buildHuffmanTree_cases [of fm sgd]) auto

lemma buildHuffmanTree_single:
  "buildHuffmanTree sgd [c \<mapsto> f] = Node 0x24 f (Node c f Null Null) Null"
  by (simp add: buildHuffmanTree_eq leaf_queue_def pq_top_def)


subsection \<open>The code table\<close>

lemma code_table_eq: "code_table sgd fm = map_of (code_list (buildHuffmanTree sgd fm) [])"
proof -
  let ?cl = "code_list (buildHuffmanTree sgd fm) []"
  have "mset (map fst ?cl) = mset (map fst (map_entries sgd fm))"
    using keys_code_list [of "buildHuffmanTree sgd fm" "[]"]
    by (simp add: leaves_buildHuffmanTree)
  then have "distinct (map fst ?cl)"
    using distinct_map_entries [of sgd fm] by (metis mset_eq_imp_distinct_iff)
  then show ?thesis
    by (simp add: code_table_def generateCodes_fold fold_put_entry_distinct)
qed

lemma dom_code_table: "dom (code_table sgd fm) = dom fm"
proof -
  let ?cl = "code_list (buildHuffmanTree sgd fm) []"
  have "mset (map fst ?cl) = mset (map fst (map_entries sgd fm))"
    using keys_code_list [of "buildHuffmanTree sgd fm" "[]"]
    by (simp add: leaves_buildHuffmanTree)
  then have "set (map fst ?cl) = set (map fst (map_entries sgd fm))"
    by (rule mset_eq_setD)
  also have "\<dots> = dom fm" by (auto simp: image_iff)
  finally show ?thesis by (simp add: code_table_eq dom_map_of_conv_image_fst)
qed

lemma code_table_walk:
  assumes "code_table sgd fm c = Some w"
  shows "set w \<subseteq> {CHR ''0'', CHR ''1''} \<and>
         (\<exists>f. walk (buildHuffmanTree sgd fm) (code_bits w) = Node c f Null Null \<and> fm c = Some f)"
proof -
  from assms have "(c, w) \<in> set (code_list (buildHuffmanTree sgd fm) [])"
    by (simp add: code_table_eq map_of_SomeD)
  from code_list_walk [OF this] obtain f where
    w: "set w \<subseteq> {CHR ''0'', CHR ''1''}"
       "walk (buildHuffmanTree sgd fm) (code_bits w) = Node c f Null Null" by auto
  from walk_leaf_in_leaves [OF w(2)] have "(c, f) \<in> set (map_entries sgd fm)"
    by (simp only: leaves_buildHuffmanTree set_mset_mset)
  then have "fm c = Some f" by simp
  with w show ?thesis by blast
qed

lemma code_table_nonempty:
  assumes "code_table sgd fm c = Some w"
  shows "w \<noteq> []"
proof
  assume "w = []"
  with code_table_walk [OF assms] obtain f where
    r: "buildHuffmanTree sgd fm = Node c f Null Null" and "fm c = Some f" by auto
  then have "fm \<noteq> Map.empty" by auto
  from buildHuffmanTree_root [OF this, of sgd] r show False by auto
qed

lemma code_table_prefix:
  assumes "code_table sgd fm c1 = Some w1" "code_table sgd fm c2 = Some w2" "prefix w1 w2"
  shows "c1 = c2"
proof -
  let ?t = "buildHuffmanTree sgd fm"
  from code_table_walk [OF assms(1)] obtain f1 where
    1: "walk ?t (code_bits w1) = Node c1 f1 Null Null" by blast
  from code_table_walk [OF assms(2)] obtain f2 where
    2: "walk ?t (code_bits w2) = Node c2 f2 Null Null" by blast
  from assms(3) obtain v where v: "w2 = w1 @ v" by (auto simp: prefix_def)
  have "walk (Node c1 f1 Null Null) (code_bits v) = Node c2 f2 Null Null"
    using 1 2 by (simp add: v walk_append)
  then show ?thesis by (cases "code_bits v") auto
qed

lemma map_single:
  assumes "dom fm = {c}"
  obtains f where "fm = [c \<mapsto> f]"
proof -
  from assms obtain f where f: "fm c = Some f" by auto
  have "fm = [c \<mapsto> f]"
  proof
    fix x
    show "fm x = [c \<mapsto> f] x"
    proof (cases "x = c")
      case True
      with f show ?thesis by simp
    next
      case False
      with assms have "x \<notin> dom fm" by simp
      with False show ?thesis by (simp add: domIff)
    qed
  qed
  then show thesis by (rule that)
qed

lemma code_table_single: "code_table sgd [c \<mapsto> f] = [c \<mapsto> ''0'']"
  by (simp add: code_table_def buildHuffmanTree_single)


lemma pair_symbols_header_pair:
  "pair_symbols (header_pair e @ rest) = fst e # pair_symbols rest"
proof -
  have "(4::nat) = Suc (Suc (Suc (Suc 0)))" by simp
  then have "\<exists>f0 f1 f2 f3. to_le 4 (unat (snd e)) = [f0, f1, f2, f3]"
    by (simp only: to_le.simps) blast
  then show ?thesis by (auto simp: header_pair_def simp del: to_le.simps)
qed

lemma pair_symbols_header_pairs: "pair_symbols (concat (map header_pair es)) = map fst es"
  by (induction es) (simp_all add: pair_symbols_header_pair)

lemma header_symbols_writeHeader:
  "header_symbols (writeHeader sgd fm) = map fst (map_entries sgd fm)"
  by (simp add: header_symbols_def writeHeader_eq pair_symbols_header_pairs)


section \<open>The decoder\<close>

lemma bind_simps [simp]:
  "bind (Inl e) f = Inl e"
  "bind (Inr v) f = f v"
  by (simp_all add: bind_def)

lemma bind_assoc: "bind (bind x f) g = bind x (\<lambda>v. bind (f v) g)"
  by (cases x) simp_all

lemma decode_bit_Node:
  "decode_bit root b (Node d f l r, cnt, out) =
     (let nx = (if b then r else l)
      in if is_leaf nx then Inr (root, cnt + 1, out @ [data nx]) else Inr (nx, cnt, out))"
proof -
  have *: "(case nx of Node d' f' Null Null \<Rightarrow> Inr (root, cnt + 1, out @ [d'])
          | _ \<Rightarrow> Inr (nx, cnt, out)) =
        (if is_leaf nx then Inr (root, cnt + 1, out @ [data nx]) else Inr (nx, cnt, out))" for nx
    by (auto simp: is_leaf_def split: node_ptr.splits)
  have "(if \<not> b then l else r) = (if b then r else l)" by simp
  then show ?thesis by (simp only: decode_bit.simps Let_def *)
qed

lemma decode_bits_done:
  "n \<le> cnt \<Longrightarrow> decode_bits root n bs (cur, cnt, out) = Inr (cur, cnt, out)"
  by (cases bs) simp_all

lemma decode_bits_append:
  "decode_bits root n (xs @ ys) st = bind (decode_bits root n xs st) (decode_bits root n ys)"
proof (induction xs arbitrary: st)
  case Nil
  then show ?case by simp
next
  case (Cons x xs)
  obtain cur cnt out where st: "st = (cur, cnt, out)" by (cases st)
  show ?case
  proof (cases "n \<le> cnt")
    case True
    then show ?thesis by (simp add: st decode_bits_done)
  next
    case False
    have "decode_bits root n (xs @ ys) =
        (\<lambda>v. bind (decode_bits root n xs v) (decode_bits root n ys))"
      by (rule ext) (rule Cons.IH)
    with False show ?thesis by (simp add: st bind_assoc)
  qed
qed

lemma decode_byte_bits:
  "decode_byte root n byte i st = decode_bits root n (map (bit byte) (rev [0..<i])) st"
proof (induction i arbitrary: st)
  case 0
  then show ?case by simp
next
  case (Suc i)
  obtain cur cnt out where st: "st = (cur, cnt, out)" by (cases st)
  have "decode_byte root n byte i = decode_bits root n (map (bit byte) (rev [0..<i]))"
    by (rule ext) (rule Suc.IH)
  then show ?case by (simp add: st)
qed

lemma decode_loop_bits:
  "decode_loop root n bytes st = decode_bits root n (bits_of_bytes bytes) st"
proof (induction bytes arbitrary: st)
  case Nil
  then show ?case by (simp add: bits_of_bytes_def)
next
  case (Cons byte rest)
  obtain cur cnt out where st: "st = (cur, cnt, out)" by (cases st)
  have b: "bits_of_bytes (byte # rest) = byte_bits byte @ bits_of_bytes rest"
    by (simp add: bits_of_bytes_def)
  show ?case
  proof (cases "cnt < n")
    case True
    moreover have "decode_loop root n rest = decode_bits root n (bits_of_bytes rest)"
      by (rule ext) (rule Cons.IH)
    ultimately show ?thesis
      by (simp add: st b decode_bits_append decode_byte_bits byte_bits_def)
  next
    case False
    then show ?thesis by (simp add: st decode_bits_done)
  qed
qed

text \<open>Walking down to a leaf emits its symbol and returns to the root.\<close>

lemma decode_code:
  assumes "walk cur bs = Node d f Null Null" "bs \<noteq> []" "cnt < n"
  shows "decode_bits root n (bs @ rest) (cur, cnt, out) =
         decode_bits root n rest (root, cnt + 1, out @ [d])"
  using assms
proof (induction bs arbitrary: cur)
  case Nil
  then show ?case by simp
next
  case (Cons b bs)
  from Cons.prems(1) obtain d' f' l r where cur: "cur = Node d' f' l r"
    by (cases cur) auto
  let ?nx = "if b then r else l"
  from Cons.prems(1) cur have w: "walk ?nx bs = Node d f Null Null" by simp
  show ?case
  proof (cases "bs = []")
    case True
    with w have "is_leaf ?nx" "data ?nx = d" by auto
    then show ?thesis using Cons.prems(3) True
      by (simp add: cur decode_bit_Node Let_def del: decode_bit.simps)
  next
    case False
    have "\<not> is_leaf ?nx"
    proof
      assume "is_leaf ?nx"
      from walk_leaf [OF this False] w show False by simp
    qed
    moreover have "decode_bits root n (bs @ rest) (?nx, cnt, out) =
        decode_bits root n rest (root, cnt + 1, out @ [d])"
      using w False Cons.prems(3) by (rule Cons.IH)
    ultimately show ?thesis using Cons.prems(3)
      by (simp add: cur decode_bit_Node Let_def del: decode_bit.simps)
  qed
qed

text \<open>Stopping inside a code: the cursor is on an inner node of the path, nothing is emitted.\<close>

lemma decode_partial:
  assumes "walk cur bs = Node d f Null Null" "j < length bs" "cnt < n"
  shows "decode_bits root n (take j bs) (cur, cnt, out) = Inr (walk cur (take j bs), cnt, out) \<and>
         walk cur (take j bs) \<noteq> Null"
  using assms
proof (induction j arbitrary: cur bs)
  case 0
  then show ?case by (cases cur) auto
next
  case (Suc j)
  from Suc.prems(2) obtain b bs' where bs: "bs = b # bs'" by (cases bs) auto
  from Suc.prems(1) obtain d' f' l r where cur: "cur = Node d' f' l r"
    by (cases cur) (auto simp: bs)
  let ?nx = "if b then r else l"
  from Suc.prems(1) cur bs have w: "walk ?nx bs' = Node d f Null Null" by simp
  from Suc.prems(2) bs have j: "j < length bs'" by simp
  then have "bs' \<noteq> []" by auto
  have "\<not> is_leaf ?nx"
  proof
    assume "is_leaf ?nx"
    from walk_leaf [OF this \<open>bs' \<noteq> []\<close>] w show False by simp
  qed
  moreover note Suc.IH [OF w j Suc.prems(3)]
  ultimately show ?case using Suc.prems(3)
    by (simp add: cur bs decode_bit_Node Let_def del: decode_bit.simps)
qed


section \<open>The bit packer\<close>

lemma code_char_bit:
  "ch \<in> {CHR ''0'', CHR ''1''} \<Longrightarrow>
   (of_char ch - of_char CHR ''0'' :: byte) = of_bool (ch = CHR ''1'')"
  by auto

lemma rev_upt_Suc: "rev [0..<Suc k] = map Suc (rev [0..<k]) @ [0]"
proof -
  have "[0..<Suc k] = 0 # map Suc [0..<k]"
    by (simp only: map_Suc_upt upt_conv_Cons [of 0 "Suc k"])
  then show ?thesis by (simp only: rev.simps rev_map)
qed

lemma bits_shift_in:
  assumes "k < 8"
  shows "map (bit (push_bit 1 buffer OR of_bool c :: byte)) (rev [0..<Suc k]) =
         map (bit buffer) (rev [0..<k]) @ [c]"
proof -
  have "bit (push_bit 1 buffer OR of_bool c :: byte) (Suc i) = bit buffer i" if "i < k" for i
    using that assms
    by (simp only: bit_or_iff bit_push_bit_iff bit_of_bool_iff possible_bit_word) simp
  then have "map (bit (push_bit 1 buffer OR of_bool c :: byte) \<circ> Suc) (rev [0..<k]) =
      map (bit buffer) (rev [0..<k])"
    by (intro map_cong) auto
  moreover have "bit (push_bit 1 buffer OR of_bool c :: byte) 0 = c"
    by (simp only: bit_or_iff bit_push_bit_iff bit_of_bool_iff possible_bit_word) simp
  ultimately show ?thesis by (simp only: rev_upt_Suc map_append map_map list.map)
qed

lemma pack_code_step:
  assumes "ch \<in> {CHR ''0'', CHR ''1''}" "k < 8"
  obtains nb where
    "pack_code (ch # code) (buffer, k, out) =
       (if Suc k = 8 then pack_code code (0, 0, out @ [nb]) else pack_code code (nb, Suc k, out))"
    "map (bit nb) (rev [0..<Suc k]) = map (bit buffer) (rev [0..<k]) @ [ch = CHR ''1'']"
proof -
  define nb :: byte where "nb = push_bit 1 buffer OR of_bool (ch = CHR ''1'')"
  have "push_bit 1 buffer OR (of_char ch - of_char CHR ''0'') = nb"
    by (simp only: code_char_bit [OF assms(1)] nb_def)
  then have "pack_code (ch # code) (buffer, k, out) =
       (if Suc k = 8 then pack_code code (0, 0, out @ [nb]) else pack_code code (nb, Suc k, out))"
    by (simp only: pack_code.simps Let_def Suc_eq_plus1)
  moreover have "map (bit nb) (rev [0..<Suc k]) = map (bit buffer) (rev [0..<k]) @ [ch = CHR ''1'']"
    unfolding nb_def using assms(2) by (rule bits_shift_in)
  ultimately show thesis by (rule that)
qed

lemma pack_code_bits:
  assumes "set code \<subseteq> {CHR ''0'', CHR ''1''}" "k < 8"
  shows "case pack_code code (buffer, k, out) of (b', k', out') \<Rightarrow>
           k' < 8 \<and>
           bits_of_bytes out' @ map (bit b') (rev [0..<k']) =
           bits_of_bytes out @ map (bit buffer) (rev [0..<k]) @ code_bits code"
  using assms
proof (induction code arbitrary: buffer k out)
  case Nil
  then show ?case by simp
next
  case (Cons ch code)
  from Cons.prems have ch: "ch \<in> {CHR ''0'', CHR ''1''}" and code: "set code \<subseteq> {CHR ''0'', CHR ''1''}"
    by auto
  from ch Cons.prems(2) obtain nb where
    step: "pack_code (ch # code) (buffer, k, out) =
       (if Suc k = 8 then pack_code code (0, 0, out @ [nb]) else pack_code code (nb, Suc k, out))"
    and sh: "map (bit nb) (rev [0..<Suc k]) = map (bit buffer) (rev [0..<k]) @ [ch = CHR ''1'']"
    by (rule pack_code_step)
  show ?case
  proof (cases "Suc k = 8")
    case True
    have "bits_of_bytes (out @ [nb]) =
        bits_of_bytes out @ map (bit buffer) (rev [0..<k]) @ [ch = CHR ''1'']"
      using sh True by (simp add: bits_of_bytes_def byte_bits_def)
    moreover have "(0::nat) < 8" by simp
    note Cons.IH [OF code this, where buffer = 0 and out = "out @ [nb]"]
    ultimately show ?thesis unfolding step by (simp add: True case_prod_beta)
  next
    case False
    with Cons.prems(2) have k: "Suc k < 8" by simp
    from Cons.IH [OF code k, where buffer = nb and out = out] False
    show ?thesis unfolding step by (simp add: case_prod_beta sh del: upt_Suc)
  qed
qed

lemma pack_loop_bits:
  assumes "\<forall>c\<in>set inp. set (code_of hc c) \<subseteq> {CHR ''0'', CHR ''1''}" "k < 8"
  shows "case pack_loop hc inp (buffer, k, out) of (b', k', out') \<Rightarrow>
           k' < 8 \<and>
           bits_of_bytes out' @ map (bit b') (rev [0..<k']) =
           bits_of_bytes out @ map (bit buffer) (rev [0..<k]) @ encode hc inp"
  using assms
proof (induction inp arbitrary: buffer k out)
  case Nil
  then show ?case by (simp add: encode_def)
next
  case (Cons c inp)
  obtain b1 k1 out1 where p: "pack_code (code_of hc c) (buffer, k, out) = (b1, k1, out1)"
    by (cases "pack_code (code_of hc c) (buffer, k, out)")
  from Cons.prems have c: "set (code_of hc c) \<subseteq> {CHR ''0'', CHR ''1''}"
    and rest: "\<forall>c\<in>set inp. set (code_of hc c) \<subseteq> {CHR ''0'', CHR ''1''}" by auto
  from pack_code_bits [OF c Cons.prems(2), where buffer = buffer and out = out] p
  have 1: "k1 < 8" "bits_of_bytes out1 @ map (bit b1) (rev [0..<k1]) =
      bits_of_bytes out @ map (bit buffer) (rev [0..<k]) @ code_bits (code_of hc c)"
    by simp_all
  have "pack_loop hc (c # inp) (buffer, k, out) = pack_loop hc inp (b1, k1, out1)"
    by (simp add: p [unfolded code_of_def] Let_def)
  moreover note Cons.IH [OF rest 1(1), where buffer = b1 and out = out1]
  ultimately show ?case by (simp add: case_prod_beta 1(2) encode_def)
qed

lemma byte_bits_pad:
  assumes "k \<le> 8"
  shows "byte_bits (push_bit (8 - k) buffer) = map (bit buffer) (rev [0..<k]) @ replicate (8 - k) False"
proof -
  let ?m = "8 - k"
  from assms have 8: "8 = ?m + k" by simp
  have "[0..<?m + k] = [0..<?m] @ [?m..<?m + k]"
    by (rule upt_add_eq_append) simp
  then have split: "[0..<8] = [0..<?m] @ map (\<lambda>i. i + ?m) [0..<k]"
    using 8 by (simp only: map_add_upt add.commute [of k])
  have "map (bit (push_bit ?m buffer)) [0..<?m] = map (\<lambda>_. False) [0..<?m]"
    by (rule map_cong) (auto simp: bit_push_bit_iff)
  then have 1: "map (bit (push_bit ?m buffer)) [0..<?m] = replicate ?m False"
    by (simp only: map_replicate_const length_upt diff_zero)
  have 2: "map (bit (push_bit ?m buffer)) (map (\<lambda>i. i + ?m) [0..<k]) = map (bit buffer) [0..<k]"
    using assms by (auto simp: bit_push_bit_iff)
  show ?thesis
    unfolding byte_bits_def split
    by (simp only: rev_append map_append rev_map [symmetric] 1 2 rev_replicate)
qed


lemma length_bits_of_bytes [simp]: "length (bits_of_bytes bs) = 8 * length bs"
  by (induction bs) (simp_all add: bits_of_bytes_def byte_bits_def)

lemma bits_of_bytes_append [simp]:
  "bits_of_bytes (xs @ ys) = bits_of_bytes xs @ bits_of_bytes ys"
  by (simp add: bits_of_bytes_def)

lemma writeCompressedData_bits:
  assumes "\<forall>c\<in>set inp. set (code_of hc c) \<subseteq> {CHR ''0'', CHR ''1''}"
  shows "\<exists>p<8. bits_of_bytes (writeCompressedData hc inp) = encode hc inp @ replicate p False"
proof -
  obtain b k out where p: "pack_loop hc inp (0, 0, []) = (b, k, out)"
    by (cases "pack_loop hc inp (0, 0, [])")
  have "(0::nat) < 8" by simp
  from pack_loop_bits [OF assms this, where buffer = 0 and out = "[]"] p
  have k: "k < 8" and bits: "bits_of_bytes out @ map (bit b) (rev [0..<k]) = encode hc inp"
    by (simp_all add: bits_of_bytes_def)
  show ?thesis
  proof (cases "k = 0")
    case True
    with bits have "bits_of_bytes (writeCompressedData hc inp) = encode hc inp @ replicate 0 False"
      by (simp add: writeCompressedData_def p)
    moreover have "(0::nat) < 8" by simp
    ultimately show ?thesis by (intro exI [of _ 0] conjI)
  next
    case False
    have "byte_bits (push_bit (8 - k) b) = map (bit b) (rev [0..<k]) @ replicate (8 - k) False"
      using k by (intro byte_bits_pad) simp
    then have "bits_of_bytes (out @ [push_bit (8 - k) b]) =
        encode hc inp @ replicate (8 - k) False"
      using bits by (simp add: bits_of_bytes_def)
    moreover have "writeCompressedData hc inp = out @ [push_bit (8 - k) b]"
      using False by (simp add: writeCompressedData_def p)
    moreover have "8 - k < 8" using False by simp
    ultimately show ?thesis by (intro exI [of _ "8 - k"] conjI) simp_all
  qed
qed

subsection \<open>The frequency table\<close>

lemma count_loop_apply:
  "count_loop inp fm c =
     (if c \<in> set inp \<or> fm c \<noteq> None
      then Some ((case fm c of None \<Rightarrow> 0 | Some f \<Rightarrow> f) + word_of_nat (count_list inp c))
      else None)"
  by (induction inp arbitrary: fm) (auto split: option.splits)

lemma buildFrequencyTable_apply:
  "buildFrequencyTable inp c =
     (if c \<in> set inp then Some (word_of_nat (count_list inp c)) else None)"
  by (simp add: buildFrequencyTable_def count_loop_apply)

lemma dom_buildFrequencyTable [simp]: "dom (buildFrequencyTable inp) = set inp"
  by (auto simp: buildFrequencyTable_apply dom_def)

lemma buildFrequencyTable_empty_iff [simp]: "buildFrequencyTable inp = Map.empty \<longleftrightarrow> inp = []"
  using dom_buildFrequencyTable [of inp] by (metis dom_eq_empty_conv set_empty)

lemma total_chars_eq: "total_chars sgd fm = (\<Sum>c\<in>dom fm. unat (the (fm c)))"
proof -
  have "fold (\<lambda>(c, f) t. t + unat f) es a = a + sum_list (map (\<lambda>e. unat (snd e)) es)"
    for es :: "(byte \<times> 32 word) list" and a
    by (induction es arbitrary: a) (auto simp: case_prod_beta)
  then have "total_chars sgd fm = sum_list (map (\<lambda>e. unat (snd e)) (map_entries sgd fm))"
    by (simp add: total_chars_def)
  also have "map (\<lambda>e. unat (snd e)) (map_entries sgd fm) =
      map (\<lambda>c. unat (the (fm c))) (map fst (map_entries sgd fm))"
    by (auto simp: comp_def)
  also have "sum_list \<dots> = (\<Sum>c\<in>set (map fst (map_entries sgd fm)). unat (the (fm c)))"
    by (rule sum_list_distinct_conv_sum_set) simp
  also have "set (map fst (map_entries sgd fm)) = dom fm"
    by (auto simp: image_iff)
  finally show ?thesis .
qed

lemma total_chars_buildFrequencyTable:
  assumes "\<forall>c. count_list S c < 2 ^ 32"
  shows "total_chars sgd (buildFrequencyTable S) = length S"
proof -
  have "unat (the (buildFrequencyTable S c)) = count_list S c" if "c \<in> set S" for c
    using that assms by (simp add: buildFrequencyTable_apply unat_of_nat)
  then have "total_chars sgd (buildFrequencyTable S) = (\<Sum>c\<in>set S. count_list S c)"
    by (simp add: total_chars_eq)
  also have "\<dots> = length S" by (rule sum_count_set) simp_all
  finally show ?thesis .
qed


section \<open>Compression followed by decompression\<close>

lemma code_of_code_table:
  assumes "c \<in> dom fm"
  obtains f where "walk (buildHuffmanTree sgd fm) (code_bits (code_of (code_table sgd fm) c)) =
      Node c f Null Null" "code_of (code_table sgd fm) c \<noteq> []"
      "set (code_of (code_table sgd fm) c) \<subseteq> {CHR ''0'', CHR ''1''}"
proof -
  from assms have "c \<in> dom (code_table sgd fm)" by (simp only: dom_code_table)
  then obtain w where w: "code_table sgd fm c = Some w" by auto
  then have "code_of (code_table sgd fm) c = w" by (simp add: code_of_def)
  with code_table_walk [OF w] code_table_nonempty [OF w] show thesis
    by (auto intro: that)
qed

lemma code_of_valid:
  "set (code_of (code_table sgd fm) c) \<subseteq> {CHR ''0'', CHR ''1''}"
proof (cases "code_table sgd fm c")
  case None
  then show ?thesis by (simp add: code_of_def)
next
  case (Some w)
  with code_table_walk [OF Some] show ?thesis by (simp add: code_of_def)
qed

lemma encode_simps [simp]:
  "encode hc [] = []"
  "encode hc (c # cs) = code_bits (code_of hc c) @ encode hc cs"
  "encode hc (xs @ ys) = encode hc xs @ encode hc ys"
  by (simp_all add: encode_def)

lemma decode_encode:
  assumes "set syms \<subseteq> dom fm" "cnt + length syms \<le> n"
  shows "decode_bits (buildHuffmanTree sgd fm) n (encode (code_table sgd fm) syms @ rest)
           (buildHuffmanTree sgd fm, cnt, out) =
         decode_bits (buildHuffmanTree sgd fm) n rest
           (buildHuffmanTree sgd fm, cnt + length syms, out @ syms)"
  using assms
proof (induction syms arbitrary: cnt out)
  case Nil
  then show ?case by simp
next
  case (Cons c syms)
  let ?root = "buildHuffmanTree sgd fm" and ?hc = "code_table sgd fm"
  from Cons.prems have c: "c \<in> dom fm" and syms: "set syms \<subseteq> dom fm"
    and cnt: "cnt < n" "Suc cnt + length syms \<le> n" by auto
  from c obtain f where w: "walk ?root (code_bits (code_of ?hc c)) = Node c f Null Null"
    and ne: "code_of ?hc c \<noteq> []" by (rule code_of_code_table)
  from ne have ne': "code_bits (code_of ?hc c) \<noteq> []" by (simp add: code_bits_def)
  have "decode_bits ?root n (encode ?hc (c # syms) @ rest) (?root, cnt, out) =
      decode_bits ?root n (encode ?hc syms @ rest) (?root, cnt + 1, out @ [c])"
    using decode_code [OF w ne' cnt(1), of ?root "encode ?hc syms @ rest" out] by simp
  also have "\<dots> = decode_bits ?root n rest (?root, Suc cnt + length syms, (out @ [c]) @ syms)"
    using Cons.IH [OF syms, of "Suc cnt" "out @ [c]"] cnt(2) by simp
  finally show ?case by simp
qed

lemma compress_eq:
  "compress sgd S =
     (if S = [] then []
      else writeHeader sgd (buildFrequencyTable S) @
           writeCompressedData (code_table sgd (buildFrequencyTable S)) S)"
  by (simp add: compress_def code_table_def Let_def)

lemma decompress_header:
  "decompress sgd (writeHeader sgd fm @ rest) = decodeData sgd (buildHuffmanTree sgd fm) fm rest"
  by (simp add: decompress_def readHeader_writeHeader_append Let_def)

lemma decodeData_bits:
  "decodeData sgd root fm bytes =
     (if total_chars sgd fm = 0 then Inr []
      else bind (decode_bits root (total_chars sgd fm) (bits_of_bytes bytes) (root, 0, []))
             (\<lambda>(currentNode, decodedCount, out). Inr out))"
  by (simp add: decodeData_def decode_loop_bits Let_def)

lemma round_trip:
  assumes "S \<noteq> []" "\<forall>c. count_list S c < 2 ^ 32"
  shows "decompress sgd (compress sgd S) = Inr S"
proof -
  let ?fm = "buildFrequencyTable S"
  let ?root = "buildHuffmanTree sgd ?fm" and ?hc = "code_table sgd ?fm"
  have n: "total_chars sgd ?fm = length S" using assms(2) by (rule total_chars_buildFrequencyTable)
  have "\<forall>c\<in>set S. set (code_of ?hc c) \<subseteq> {CHR ''0'', CHR ''1''}"
    by (simp add: code_of_valid)
  from writeCompressedData_bits [OF this] obtain p where
    bits: "bits_of_bytes (writeCompressedData ?hc S) = encode ?hc S @ replicate p False" by blast
  have "decode_bits ?root (length S) (encode ?hc S @ replicate p False) (?root, 0, []) =
      decode_bits ?root (length S) (replicate p False) (?root, 0 + length S, [] @ S)"
    by (rule decode_encode) simp_all
  also have "\<dots> = Inr (?root, length S, S)" by (simp add: decode_bits_done)
  finally have "decodeData sgd ?root ?fm (writeCompressedData ?hc S) = Inr S"
    using assms(1) by (simp add: decodeData_bits n bits)
  then show ?thesis using assms(1) by (simp add: compress_eq decompress_header)
qed

lemma count_list_replicate_eq: "count_list (replicate n a) c = (if c = a then n else 0)"
  by (induction n) auto

lemma buildFrequencyTable_replicate:
  "0 < n \<Longrightarrow> buildFrequencyTable (replicate n a) = [a \<mapsto> word_of_nat n]"
  by (rule ext) (simp add: buildFrequencyTable_apply count_list_replicate_eq)

lemma total_chars_single [simp]: "total_chars sgd [a \<mapsto> f] = unat f"
  by (simp add: total_chars_def)

lemma total_chars_empty [simp]: "total_chars sgd Map.empty = 0"
  by (simp add: total_chars_eq)

lemma wrapped_count_lost:
  "decompress sgd (compress sgd (replicate (2 ^ 32) a)) = Inr []"
proof -
  have z: "(word_of_nat (2 ^ 32) :: 32 word) = 0" by simp
  have "buildFrequencyTable (replicate (2 ^ 32) a) = [a \<mapsto> word_of_nat (2 ^ 32)]"
    by (rule buildFrequencyTable_replicate) simp
  then have fm: "buildFrequencyTable (replicate (2 ^ 32) a) = [a \<mapsto> 0]"
    by (simp only: z)
  have "replicate (2 ^ 32) a \<noteq> []" by simp
  then show ?thesis
    by (simp only: compress_eq if_False fm decompress_header) (simp add: decodeData_def)
qed


section \<open>Streams that end early\<close>

lemma decode_encode_take:
  assumes "set syms \<subseteq> dom fm" "cnt + length syms \<le> n"
    "m < length (encode (code_table sgd fm) syms)"
  shows "\<exists>cur pre.
           decode_bits (buildHuffmanTree sgd fm) n (take m (encode (code_table sgd fm) syms))
             (buildHuffmanTree sgd fm, cnt, out) = Inr (cur, cnt + length pre, out @ pre) \<and>
           cur \<noteq> Null \<and> strict_prefix pre syms"
  using assms
proof (induction syms arbitrary: cnt out m)
  case Nil
  then show ?case by simp
next
  case (Cons c syms)
  let ?root = "buildHuffmanTree sgd fm" and ?hc = "code_table sgd fm"
  let ?w = "code_bits (code_of ?hc c)"
  from Cons.prems have c: "c \<in> dom fm" and syms: "set syms \<subseteq> dom fm"
    and cnt: "cnt < n" "Suc cnt + length syms \<le> n" by auto
  from c obtain f where w: "walk ?root ?w = Node c f Null Null"
    and ne: "code_of ?hc c \<noteq> []" by (rule code_of_code_table)
  from ne have ne': "?w \<noteq> []" by (simp add: code_bits_def)
  show ?case
  proof (cases "m < length ?w")
    case True
    from decode_partial [OF w True cnt(1), of ?root out]
    have "decode_bits ?root n (take m (encode ?hc (c # syms))) (?root, cnt, out) =
        Inr (walk ?root (take m ?w), cnt + length ([] :: byte list), out @ [])"
      and "walk ?root (take m ?w) \<noteq> Null"
      using True by simp_all
    moreover have "strict_prefix [] (c # syms)" by simp
    ultimately show ?thesis by blast
  next
    case False
    let ?m = "m - length ?w"
    from False Cons.prems(3) have m: "?m < length (encode ?hc syms)" by simp
    from False have "take m (encode ?hc (c # syms)) = ?w @ take ?m (encode ?hc syms)"
      by simp
    then have "decode_bits ?root n (take m (encode ?hc (c # syms))) (?root, cnt, out) =
        decode_bits ?root n (take ?m (encode ?hc syms)) (?root, cnt + 1, out @ [c])"
      using decode_code [OF w ne' cnt(1), of ?root "take ?m (encode ?hc syms)" out] by simp
    moreover from Cons.IH [OF syms _ m, of "Suc cnt" "out @ [c]"] cnt(2)
    obtain cur pre where
      "decode_bits ?root n (take ?m (encode ?hc syms)) (?root, Suc cnt, out @ [c]) =
         Inr (cur, Suc cnt + length pre, (out @ [c]) @ pre)"
      "cur \<noteq> Null" "strict_prefix pre syms" by auto
    ultimately have "decode_bits ?root n (take m (encode ?hc (c # syms))) (?root, cnt, out) =
        Inr (cur, cnt + length (c # pre), out @ (c # pre))"
      "cur \<noteq> Null" "strict_prefix (c # pre) (c # syms)" by simp_all
    then show ?thesis by blast
  qed
qed

lemma bits_of_bytes_take: "bits_of_bytes (take k bs) = take (8 * k) (bits_of_bytes bs)"
proof (induction bs arbitrary: k)
  case Nil
  then show ?case by (simp add: bits_of_bytes_def)
next
  case (Cons b bs)
  show ?case
  proof (cases k)
    case 0
    then show ?thesis by (simp add: bits_of_bytes_def)
  next
    case (Suc j)
    have "bits_of_bytes (b # bs) = byte_bits b @ bits_of_bytes bs" "length (byte_bits b) = 8"
      by (simp_all add: bits_of_bytes_def byte_bits_def)
    then show ?thesis using Cons.IH [of j] by (simp add: Suc bits_of_bytes_def)
  qed
qed

lemma truncated_stream:
  assumes "S \<noteq> []" "\<forall>c. count_list S c < 2 ^ 32"
    "length (writeHeader sgd (buildFrequencyTable S)) \<le> n" "n < length (compress sgd S)"
  shows "\<exists>pre. decompress sgd (take n (compress sgd S)) = Inr pre \<and> strict_prefix pre S"
proof -
  let ?fm = "buildFrequencyTable S"
  let ?root = "buildHuffmanTree sgd ?fm" and ?hc = "code_table sgd ?fm"
  let ?hdr = "writeHeader sgd ?fm" and ?data = "writeCompressedData ?hc S"
  let ?k = "n - length ?hdr"
  have c: "compress sgd S = ?hdr @ ?data" using assms(1) by (simp add: compress_eq)
  have tot: "total_chars sgd ?fm = length S"
    using assms(2) by (rule total_chars_buildFrequencyTable)
  have "\<forall>c\<in>set S. set (code_of ?hc c) \<subseteq> {CHR ''0'', CHR ''1''}"
    by (simp add: code_of_valid)
  from writeCompressedData_bits [OF this] obtain p where
    p: "p < 8" and bits: "bits_of_bytes ?data = encode ?hc S @ replicate p False" by blast
  from assms(3,4) c have k: "?k < length ?data" by simp
  from arg_cong [OF bits, of length] have "8 * length ?data = length (encode ?hc S) + p"
    by simp
  with k p have m: "8 * ?k < length (encode ?hc S)" by linarith
  have tk: "take n (compress sgd S) = ?hdr @ take ?k ?data"
    using assms(3) by (simp add: c)
  have "bits_of_bytes (take ?k ?data) = take (8 * ?k) (encode ?hc S)"
    using m by (simp add: bits_of_bytes_take bits)
  moreover from decode_encode_take [OF _ _ m, of 0 "length S" "[]"]
  obtain cur pre where
    "decode_bits ?root (length S) (take (8 * ?k) (encode ?hc S)) (?root, 0, []) =
       Inr (cur, length pre, pre)" "strict_prefix pre S" by auto
  ultimately have "decodeData sgd ?root ?fm (take ?k ?data) = Inr pre"
    using assms(1) by (simp add: decodeData_bits tot)
  then have "decompress sgd (take n (compress sgd S)) = Inr pre"
    by (simp only: tk decompress_header)
  with \<open>strict_prefix pre S\<close> show ?thesis by blast
qed


lemma decode_valid_stream:
  assumes "set syms \<subseteq> dom fm" "length syms \<le> n"
    "length syms < n \<longrightarrow> rest = []"
  shows "decode_bits (buildHuffmanTree sgd fm) n (encode (code_table sgd fm) syms @ rest)
           (buildHuffmanTree sgd fm, 0, []) = Inr (buildHuffmanTree sgd fm, length syms, syms)"
proof -
  let ?root = "buildHuffmanTree sgd fm"
  have "decode_bits ?root n (encode (code_table sgd fm) syms @ rest) (?root, 0, []) =
      decode_bits ?root n rest (?root, 0 + length syms, [] @ syms)"
    using assms(1,2) by (intro decode_encode) simp_all
  also have "\<dots> = Inr (?root, length syms, syms)"
    using assms(2,3) by (cases "length syms < n") (simp_all add: decode_bits_done)
  finally show ?thesis .
qed


lemma length_header_pairs: "length (concat (map header_pair es)) = 5 * length es"
  by (induction es) (simp_all add: header_pair_def)

lemma length_writeHeader: "length (writeHeader sgd fm) = 8 + 5 * card (dom fm)"
  by (simp add: writeHeader_eq length_header_pairs length_map_entries)

lemma total_chars_le_length: "total_chars sgd (buildFrequencyTable S) \<le> length S"
proof -
  have "unat (the (buildFrequencyTable S c)) \<le> count_list S c" if "c \<in> set S" for c
    using that by (simp add: buildFrequencyTable_apply unat_of_nat)
  then have "(\<Sum>c\<in>set S. unat (the (buildFrequencyTable S c))) \<le> (\<Sum>c\<in>set S. count_list S c)"
    by (rule sum_mono)
  also have "\<dots> = length S" by (rule sum_count_set) simp_all
  finally show ?thesis by (simp add: total_chars_eq)
qed

lemma round_trip_prefix:
  assumes "S \<noteq> []"
  shows "decompress sgd (compress sgd S) =
         Inr (take (total_chars sgd (buildFrequencyTable S)) S)"
proof -
  let ?fm = "buildFrequencyTable S"
  let ?root = "buildHuffmanTree sgd ?fm" and ?hc = "code_table sgd ?fm"
  let ?n = "total_chars sgd ?fm"
  have n: "?n \<le> length S" by (rule total_chars_le_length)
  have "\<forall>c\<in>set S. set (code_of ?hc c) \<subseteq> {CHR ''0'', CHR ''1''}"
    by (simp add: code_of_valid)
  from writeCompressedData_bits [OF this] obtain p where
    bits: "bits_of_bytes (writeCompressedData ?hc S) = encode ?hc S @ replicate p False" by blast
  have "encode ?hc S = encode ?hc (take ?n S) @ encode ?hc (drop ?n S)"
    by (simp only: encode_simps(3) [symmetric] append_take_drop_id)
  then have bits': "bits_of_bytes (writeCompressedData ?hc S) =
      encode ?hc (take ?n S) @ (encode ?hc (drop ?n S) @ replicate p False)"
    by (simp add: bits)
  have "set (take ?n S) \<subseteq> dom ?fm" using set_take_subset [of ?n S] by simp
  moreover have "0 + length (take ?n S) \<le> ?n" using n by simp
  ultimately have "decode_bits ?root ?n
      (encode ?hc (take ?n S) @ (encode ?hc (drop ?n S) @ replicate p False)) (?root, 0, []) =
      decode_bits ?root ?n (encode ?hc (drop ?n S) @ replicate p False)
        (?root, 0 + length (take ?n S), [] @ take ?n S)"
    by (rule decode_encode)
  also have "\<dots> = Inr (?root, ?n, take ?n S)"
    using n by (simp add: decode_bits_done min_absorb2)
  finally have "decodeData sgd ?root ?fm (writeCompressedData ?hc S) = Inr (take ?n S)"
    by (simp add: decodeData_bits bits')
  then show ?thesis using assms by (simp add: compress_eq decompress_header)
qed

section \<open>The claims\<close>

subsection \<open>C1: compression followed by decompression\<close>

text \<open>
  C1, as the code has it. For every non-empty byte sequence \<open>S\<close> in which no byte value
  occurs \<open>2\<^sup>3\<^sup>2\<close> times or more, decompressing the output of compressing \<open>S\<close> yields
  exactly \<open>S\<close>. This covers sequences of identical bytes and sequences that use all
  256 byte values.
\<close>

theorem compress_decompress_round_trip:
  "S \<noteq> [] \<Longrightarrow> \<forall>c. count_list S c < 2 ^ 32 \<Longrightarrow> decompress sgd (compress sgd S) = Inr S"
  by (rule round_trip)

text \<open>The input \<open>aaaabbc\<close>; its three frequencies 4, 2 and 1 leave the queue no tie.\<close>

theorem compress_decompress_round_trip_witness:
  "[0x61, 0x61, 0x61, 0x61, 0x62, 0x62, 0x63 :: byte] \<noteq> [] \<and>
   (\<forall>c. count_list [0x61, 0x61, 0x61, 0x61, 0x62, 0x62, 0x63 :: byte] c < 2 ^ 32) \<and>
   decompress True (compress True [0x61, 0x61, 0x61, 0x61, 0x62, 0x62, 0x63]) =
     Inr [0x61, 0x61, 0x61, 0x61, 0x62, 0x62, 0x63]"
proof -
  have h1: "[0x61, 0x61, 0x61, 0x61, 0x62, 0x62, 0x63 :: byte] \<noteq> []" by simp
  have h2: "\<forall>c. count_list [0x61, 0x61, 0x61, 0x61, 0x62, 0x62, 0x63 :: byte] c < 2 ^ 32"
    by simp
  from compress_decompress_round_trip [OF h1 h2, of True] h1 h2 show ?thesis
    by (intro conjI)
qed

text \<open>
  The frequencies are \<^verbatim>\<open>unsigned\<close>, in the table and in the header. A sequence of
  \<open>2\<^sup>3\<^sup>2\<close> equal bytes is counted as 0, the header declares 0 symbols, and
  \<^verbatim>\<open>decodeData\<close> returns at once: the output is empty.
\<close>

theorem wrapped_count_counterexample:
  "decompress True (compress True (replicate (2 ^ 32) 0x61)) = Inr [] \<and>
   replicate (2 ^ 32) (0x61 :: byte) \<noteq> []"
proof
  show "decompress True (compress True (replicate (2 ^ 32) 0x61)) = Inr []"
    by (rule wrapped_count_lost)
  show "replicate (2 ^ 32) (0x61 :: byte) \<noteq> []" by simp
qed

text \<open>
  The empty sequence is left out of the statement above. \<^verbatim>\<open>compress\<close> writes an empty
  file for it; on an empty file the \<^verbatim>\<open>read\<close> of \<^verbatim>\<open>mapSize\<close> in \<^verbatim>\<open>readHeader\<close> fails
  and the loop bound is an unset variable.
\<close>

lemma empty_file_round_trip: "decompress sgd (compress sgd []) = Inl IndeterminateValue"
  by (simp add: compress_eq decompress_def readHeader_def)

subsection \<open>C2: a bitstream that ends early\<close>

text \<open>
  C2, as the code has it. \<^verbatim>\<open>decodeData\<close> leaves its loop when the stream is exhausted and
  returns; nothing tells its caller that fewer symbols than declared were decoded. For
  every file \<^verbatim>\<open>compress\<close> produces from a non-empty input (no byte value \<open>2\<^sup>3\<^sup>2\<close> times
  or more), cutting one or more bytes off the end of the packed bitstream makes
  \<^verbatim>\<open>decompress\<close> return normally with a proper prefix of the input as its output.
\<close>

theorem truncated_stream_no_error:
  "S \<noteq> [] \<Longrightarrow> \<forall>c. count_list S c < 2 ^ 32 \<Longrightarrow>
   length (writeHeader sgd (buildFrequencyTable S)) \<le> n \<Longrightarrow> n < length (compress sgd S) \<Longrightarrow>
   \<exists>pre. decompress sgd (take n (compress sgd S)) = Inr pre \<and> strict_prefix pre S"
  by (rule truncated_stream)

text \<open>
  The file of the input \<open>aaaabbc\<close>: the count 3, the pairs of \<open>a\<close>, \<open>b\<close> and \<open>c\<close>, and
  the nine bits \<open>1111 01 01 00\<close> in two bytes. Without its last byte, the header still
  declares seven symbols and the one byte left holds the codes of six.
\<close>

lemma compress_example:
  "compress True [0x61, 0x61, 0x61, 0x61, 0x62, 0x62, 0x63] =
     [3, 0, 0, 0, 0, 0, 0, 0, 0x61, 4, 0, 0, 0, 0x62, 2, 0, 0, 0, 0x63, 1, 0, 0, 0, 0xF5, 0]"
  by code_simp

lemma decompress_example:
  "decompress True
     [3, 0, 0, 0, 0, 0, 0, 0, 0x61, 4, 0, 0, 0, 0x62, 2, 0, 0, 0, 0x63, 1, 0, 0, 0, 0xF5] =
   Inr [0x61, 0x61, 0x61, 0x61, 0x62, 0x62]"
  by code_simp

theorem truncated_stream_no_error_witness:
  "[0x61, 0x61, 0x61, 0x61, 0x62, 0x62, 0x63 :: byte] \<noteq> [] \<and>
   (\<forall>c. count_list [0x61, 0x61, 0x61, 0x61, 0x62, 0x62, 0x63 :: byte] c < 2 ^ 32) \<and>
   length (writeHeader True (buildFrequencyTable [0x61, 0x61, 0x61, 0x61, 0x62, 0x62, 0x63])) \<le> 24 \<and>
   24 < length (compress True [0x61, 0x61, 0x61, 0x61, 0x62, 0x62, 0x63]) \<and>
   decompress True (take 24 (compress True [0x61, 0x61, 0x61, 0x61, 0x62, 0x62, 0x63])) =
     Inr [0x61, 0x61, 0x61, 0x61, 0x62, 0x62] \<and>
   strict_prefix [0x61, 0x61, 0x61, 0x61, 0x62, 0x62] [0x61, 0x61, 0x61, 0x61, 0x62, 0x62, 0x63 :: byte]"
proof -
  let ?S = "[0x61, 0x61, 0x61, 0x61, 0x62, 0x62, 0x63 :: byte]"
  have h1: "?S \<noteq> []" by simp
  have h2: "\<forall>c. count_list ?S c < 2 ^ 32" by simp
  have h3: "length (writeHeader True (buildFrequencyTable ?S)) \<le> 24"
    by (simp add: length_writeHeader)
  have h4: "24 < length (compress True ?S)"
    by (simp only: compress_example) simp
  have e: "decompress True (take 24 (compress True ?S)) = Inr [0x61, 0x61, 0x61, 0x61, 0x62, 0x62]"
    by (simp only: compress_example) (simp add: decompress_example)
  from truncated_stream_no_error [OF h1 h2 h3 h4] obtain pre where
    "decompress True (take 24 (compress True ?S)) = Inr pre" "strict_prefix pre ?S"
    by blast
  with e have "strict_prefix [0x61, 0x61, 0x61, 0x61, 0x62, 0x62] ?S"
    by simp
  with h1 h2 h3 h4 e show ?thesis by (intro conjI)
qed

text \<open>
  On that file \<^verbatim>\<open>decompress\<close> returns six of the seven symbols and reports nothing.
\<close>

theorem truncated_stream_counterexample:
  "decompress True
     [3, 0, 0, 0, 0, 0, 0, 0, 0x61, 4, 0, 0, 0, 0x62, 2, 0, 0, 0, 0x63, 1, 0, 0, 0, 0xF5] =
   Inr [0x61, 0x61, 0x61, 0x61, 0x62, 0x62]"
  by (rule decompress_example)

subsection \<open>C3: a header that ends early\<close>

text \<open>
  C3, as the code has it. \<^verbatim>\<open>readHeader\<close> never tests the state of the stream and has no
  error result. When the stream holds the eight bytes of the count but fewer pairs than
  the count declares, a \<^verbatim>\<open>read\<close> fails and leaves \<^verbatim>\<open>character\<close> or \<^verbatim>\<open>frequency\<close>
  unset, and the next statement uses them: the outcome is undefined behaviour
  (\<open>IndeterminateValue\<close>), not a reported malformed-header error.
\<close>

theorem readHeader_truncated:
  "8 \<le> length s \<Longrightarrow> (length s - 8) div 5 < from_le (take 8 s) \<Longrightarrow>
   readHeader s = Inl IndeterminateValue"
proof -
  assume "8 \<le> length s" and "(length s - 8) div 5 < from_le (take 8 s)"
  then have "length (drop 8 s) < 5 * from_le (take 8 s)"
    by (simp del: from_le.simps)
  then show ?thesis
    using \<open>8 \<le> length s\<close> by (simp add: readHeader_def read_pairs_short Let_def del: from_le.simps)
qed

theorem readHeader_truncated_witness:
  "8 \<le> length [3, 0, 0, 0, 0, 0, 0, 0, 0x61, 3, 0, 0, 0, 0x62 :: byte] \<and>
   (length [3, 0, 0, 0, 0, 0, 0, 0, 0x61, 3, 0, 0, 0, 0x62 :: byte] - 8) div 5
      < from_le (take 8 [3, 0, 0, 0, 0, 0, 0, 0, 0x61, 3, 0, 0, 0, 0x62]) \<and>
   readHeader [3, 0, 0, 0, 0, 0, 0, 0, 0x61, 3, 0, 0, 0, 0x62] = Inl IndeterminateValue"
proof -
  have h1: "8 \<le> length [3, 0, 0, 0, 0, 0, 0, 0, 0x61, 3, 0, 0, 0, 0x62 :: byte]"
    by simp
  have h2: "(length [3, 0, 0, 0, 0, 0, 0, 0, 0x61, 3, 0, 0, 0, 0x62 :: byte] - 8) div 5
      < from_le (take 8 [3, 0, 0, 0, 0, 0, 0, 0, 0x61, 3, 0, 0, 0, 0x62])"
    by code_simp
  from readHeader_truncated [OF h1 h2] h1 h2 show ?thesis by (intro conjI)
qed

text \<open>
  A header that declares two pairs and holds one: nothing is reported, the second
  iteration works on unset variables.
\<close>

theorem readHeader_no_error_counterexample:
  "readHeader [2, 0, 0, 0, 0, 0, 0, 0, 0x61, 3, 0, 0, 0] = Inl IndeterminateValue"
  by code_simp

subsection \<open>C4: empty input\<close>

text \<open>
  C4. Compressing an empty input produces an empty output file, with no header and no
  bitstream, and is not an error; decompressing an empty file is to produce an empty
  output. The first half holds. For the second the code has no case of its own: it
  relies on \<^verbatim>\<open>readHeader\<close> to leave the table empty, on \<^verbatim>\<open>buildHuffmanTree\<close> to return a
  null root for it (lines 78 to 82) and on \<^verbatim>\<open>decodeData\<close> to return at a total of 0
  (line 242). But on an empty file the \<^verbatim>\<open>read\<close> of \<^verbatim>\<open>mapSize\<close> fails, \<^verbatim>\<open>mapSize\<close> was
  declared without an initial value, and the loop of \<^verbatim>\<open>readHeader\<close> tests it: the run
  has undefined behaviour where the claim asks for an empty output.
\<close>

theorem empty_file_decompress:
  "compress sgd [] = [] \<and>
   readHeader [] = Inl IndeterminateValue \<and>
   decompress sgd (compress sgd []) = Inl IndeterminateValue"
  by (simp add: compress_eq decompress_def readHeader_def)

subsection \<open>C5 and C6: the code table\<close>

text \<open>
  C5. For every non-empty frequency table, the code table generated from the tree
  built over it has an entry for exactly the symbols of the table, every code is a
  non-empty string of the characters \<open>0\<close> and \<open>1\<close>, and no code is a prefix of the
  code of another symbol.
\<close>

theorem codes_prefix_free:
  "fm \<noteq> Map.empty \<Longrightarrow>
   dom (code_table sgd fm) = dom fm \<and>
   (\<forall>c w. code_table sgd fm c = Some w \<longrightarrow> w \<noteq> [] \<and> set w \<subseteq> {CHR ''0'', CHR ''1''}) \<and>
   (\<forall>c1 c2 w1 w2. code_table sgd fm c1 = Some w1 \<and> code_table sgd fm c2 = Some w2 \<and> c1 \<noteq> c2
        \<longrightarrow> \<not> prefix w1 w2)"
proof (intro conjI allI impI)
  show "dom (code_table sgd fm) = dom fm" by (rule dom_code_table)
next
  fix c w assume "code_table sgd fm c = Some w"
  then show "w \<noteq> []" by (rule code_table_nonempty)
next
  fix c w assume "code_table sgd fm c = Some w"
  then show "set w \<subseteq> {CHR ''0'', CHR ''1''}" by (rule code_table_walk [THEN conjunct1])
next
  fix c1 c2 w1 w2
  assume "code_table sgd fm c1 = Some w1 \<and> code_table sgd fm c2 = Some w2 \<and> c1 \<noteq> c2"
  then show "\<not> prefix w1 w2" using code_table_prefix [of sgd fm c1 w1 c2 w2] by blast
qed

lemma code_table_example:
  "code_table True [0x61 \<mapsto> 3, 0x62 \<mapsto> 2] 0x61 = Some ''1''"
  "code_table True [0x61 \<mapsto> 3, 0x62 \<mapsto> 2] 0x62 = Some ''0''"
  by code_simp+

theorem codes_prefix_free_witness:
  "[0x61 \<mapsto> 3, 0x62 \<mapsto> 2] \<noteq> (Map.empty :: freq_map) \<and>
   code_table True [0x61 \<mapsto> 3, 0x62 \<mapsto> 2] 0x61 = Some ''1'' \<and>
   code_table True [0x61 \<mapsto> 3, 0x62 \<mapsto> 2] 0x62 = Some ''0'' \<and>
   (0x61 :: byte) \<noteq> 0x62 \<and> ''1'' \<noteq> [] \<and> \<not> prefix ''1'' ''0''"
proof -
  have h: "[0x61 \<mapsto> 3, 0x62 \<mapsto> 2] \<noteq> (Map.empty :: freq_map)" by simp
  have n: "(0x61 :: byte) \<noteq> 0x62" by simp
  note t = codes_prefix_free [OF h, of True]
  note t1 = t [THEN conjunct2, THEN conjunct1, rule_format]
  note t2 = t [THEN conjunct2, THEN conjunct2, rule_format]
  have "''1'' \<noteq> []"
    by (rule t1 [THEN conjunct1]) (rule code_table_example(1))
  moreover have "\<not> prefix ''1'' ''0''"
    by (rule t2 [of "0x61" "''1''" "0x62" "''0''"]) (intro conjI code_table_example n)
  ultimately show ?thesis using h n code_table_example by (intro conjI)
qed

text \<open>
  C6. When the frequency table holds exactly one symbol, the tree is one internal
  node (payload \<open>$\<close>, the frequency of the leaf) whose left child is the leaf and whose
  right child is null, and the symbol receives the code \<open>0\<close>.
\<close>

theorem single_symbol_tree:
  "dom fm = {c} \<Longrightarrow>
   buildHuffmanTree sgd fm = Node 0x24 (the (fm c)) (Node c (the (fm c)) Null Null) Null \<and>
   code_table sgd fm = [c \<mapsto> ''0'']"
proof -
  assume "dom fm = {c}"
  then obtain f where "fm = [c \<mapsto> f]" by (rule map_single)
  then show ?thesis by (simp add: buildHuffmanTree_single code_table_single)
qed

theorem single_symbol_tree_witness:
  "dom [0x61 \<mapsto> 5 :: 32 word] = {0x61 :: byte} \<and>
   buildHuffmanTree True [0x61 \<mapsto> 5] = Node 0x24 5 (Node 0x61 5 Null Null) Null \<and>
   code_table True [0x61 \<mapsto> 5] = [0x61 \<mapsto> ''0'']"
proof -
  have h: "dom [0x61 \<mapsto> 5 :: 32 word] = {0x61 :: byte}" by simp
  have v: "the ([0x61 \<mapsto> 5 :: 32 word] (0x61 :: byte)) = 5" by simp
  note t = single_symbol_tree [OF h, of True, unfolded v]
  from t h show ?thesis by (intro conjI) (elim conjE, assumption)+
qed

subsection \<open>C7 and C8: the header\<close>

text \<open>
  C7. For every non-empty frequency table \<open>T\<close>, reading the bytes \<^verbatim>\<open>writeHeader\<close>
  wrote gives back exactly \<open>T\<close>, and nothing of the header is left unread.
\<close>

theorem header_round_trip:
  "T \<noteq> Map.empty \<Longrightarrow> readHeader (writeHeader sgd T) = Inr (T, [])"
  using readHeader_writeHeader_append [of sgd T "[]"] by simp

theorem header_round_trip_witness:
  "[0x61 \<mapsto> 3, 0x62 \<mapsto> 2] \<noteq> (Map.empty :: freq_map) \<and>
   readHeader (writeHeader True [0x61 \<mapsto> 3, 0x62 \<mapsto> 2]) = Inr ([0x61 \<mapsto> 3, 0x62 \<mapsto> 2], [])"
proof -
  have h: "[0x61 \<mapsto> 3, 0x62 \<mapsto> 2] \<noteq> (Map.empty :: freq_map)" by simp
  from header_round_trip [OF h, of True] h show ?thesis by (intro conjI)
qed

text \<open>
  C8, as the code has it. For every non-empty frequency table, \<^verbatim>\<open>writeHeader\<close> writes the
  number of symbols as eight bytes and then one (symbol, frequency) pair for each entry of
  the table, in ascending order of the symbol as a \<^verbatim>\<open>char\<close>: where \<^verbatim>\<open>char\<close> is
  signed, the bytes 0x80 to 0xFF are negative and come before the bytes 0x00 to 0x7F.
\<close>

theorem writeHeader_order:
  "fm \<noteq> Map.empty \<Longrightarrow>
   writeHeader sgd fm =
     to_le 8 (card (dom fm)) @ concat (map header_pair (map_entries sgd fm)) \<and>
   set (map_entries sgd fm) = {(c, f). fm c = Some f} \<and>
   header_symbols (writeHeader sgd fm) = map fst (map_entries sgd fm) \<and>
   sorted_wrt (\<lambda>a b. char_value sgd a < char_value sgd b) (header_symbols (writeHeader sgd fm))"
proof -
  have 1: "writeHeader sgd fm =
      to_le 8 (card (dom fm)) @ concat (map header_pair (map_entries sgd fm))"
    by (simp only: writeHeader_eq length_map_entries)
  have 2: "set (map_entries sgd fm) = {(c, f). fm c = Some f}"
    by (rule set_map_entries)
  have 3: "header_symbols (writeHeader sgd fm) = map fst (map_entries sgd fm)"
    by (rule header_symbols_writeHeader)
  have 4: "sorted_wrt (\<lambda>a b. char_value sgd a < char_value sgd b)
      (header_symbols (writeHeader sgd fm))"
    unfolding 3 by (rule sorted_map_entries)
  from 1 2 3 4 show ?thesis by (intro conjI)
qed

lemma writeHeader_example:
  "writeHeader True [0x80 \<mapsto> 1, 0x01 \<mapsto> 1] =
    [2, 0, 0, 0, 0, 0, 0, 0, 0x80, 1, 0, 0, 0, 0x01, 1, 0, 0, 0]"
  by code_simp

lemma header_symbols_example:
  "header_symbols [2, 0, 0, 0, 0, 0, 0, 0, 0x80, 1, 0, 0, 0, 0x01, 1, 0, 0, 0] = [0x80, 0x01]"
  by code_simp

theorem writeHeader_order_witness:
  "[0x80 \<mapsto> 1, 0x01 \<mapsto> 1] \<noteq> (Map.empty :: freq_map) \<and>
   header_symbols (writeHeader True [0x80 \<mapsto> 1, 0x01 \<mapsto> 1]) = [0x80, 0x01] \<and>
   sorted_wrt (\<lambda>a b. char_value True a < char_value True b) 
      (header_symbols (writeHeader True [0x80 \<mapsto> 1, 0x01 \<mapsto> 1]))"
proof -
  have h: "[0x80 \<mapsto> 1, 0x01 \<mapsto> 1] \<noteq> (Map.empty :: freq_map)" by simp
  have "header_symbols (writeHeader True [0x80 \<mapsto> 1, 0x01 \<mapsto> 1]) = [0x80, 0x01]"
    by (simp only: writeHeader_example header_symbols_example)
  moreover from writeHeader_order [OF h, of True]
  have "sorted_wrt (\<lambda>a b. char_value True a < char_value True b)
      (header_symbols (writeHeader True [0x80 \<mapsto> 1, 0x01 \<mapsto> 1]))"
    by (elim conjE)
  ultimately show ?thesis using h by (intro conjI)
qed

text \<open>
  With a signed \<^verbatim>\<open>char\<close>, the table of the two bytes 0x01 and 0x80 is written with
  0x80 first: the symbols of the header are not in ascending order of their value as
  bytes 0 to 255.
\<close>

theorem writeHeader_byte_order_counterexample:
  "writeHeader True [0x80 \<mapsto> 1, 0x01 \<mapsto> 1] =
     [2, 0, 0, 0, 0, 0, 0, 0, 0x80, 1, 0, 0, 0, 0x01, 1, 0, 0, 0] \<and>
   \<not> sorted_wrt (\<lambda>a b. unat a < unat b) (header_symbols (writeHeader True [0x80 \<mapsto> 1, 0x01 \<mapsto> 1]))"
  by (simp only: writeHeader_example header_symbols_example) simp

subsection \<open>C9: the cursor of the decoder\<close>

text \<open>
  C9. Let the bits of the stream be the codes of the symbols \<open>syms\<close> of the table, followed
  by \<open>rest\<close>, where either \<open>syms\<close> has as many symbols as the table declares (\<open>rest\<close> is
  then padding, never consumed) or it has fewer and the stream ends with them. Then after
  any number \<open>k\<close> of bits the cursor of \<^verbatim>\<open>decodeData\<close> is an existing node, never null:
  no bit selects an absent child, so the null pointer is never dereferenced, and
  \<^verbatim>\<open>decodeData\<close> returns \<open>syms\<close>.
\<close>

theorem cursor_never_null:
  assumes "fm \<noteq> Map.empty" "set syms \<subseteq> dom fm" "length syms \<le> total_chars sgd fm"
    "bits_of_bytes stream = encode (code_table sgd fm) syms @ rest"
    "length syms < total_chars sgd fm \<longrightarrow> rest = []"
  shows "(\<exists>cur cnt out.
            decode_bits (buildHuffmanTree sgd fm) (total_chars sgd fm)
              (take k (bits_of_bytes stream)) (buildHuffmanTree sgd fm, 0, []) =
              Inr (cur, cnt, out) \<and> cur \<noteq> Null) \<and>
         decodeData sgd (buildHuffmanTree sgd fm) fm stream = Inr syms"
proof
  let ?root = "buildHuffmanTree sgd fm" and ?hc = "code_table sgd fm"
  let ?n = "total_chars sgd fm"
  from buildHuffmanTree_root [OF assms(1), of sgd] have root: "?root \<noteq> Null" by auto
  show "\<exists>cur cnt out. decode_bits ?root ?n (take k (bits_of_bytes stream)) (?root, 0, []) =
      Inr (cur, cnt, out) \<and> cur \<noteq> Null"
  proof (cases "k < length (encode ?hc syms)")
    case True
    from decode_encode_take [OF assms(2) _ True, of 0 ?n "[]"] assms(3)
    obtain cur pre where
      "decode_bits ?root ?n (take k (encode ?hc syms)) (?root, 0, []) =
         Inr (cur, 0 + length pre, [] @ pre)" "cur \<noteq> Null" by auto
    with True show ?thesis by (simp add: assms(4))
  next
    case False
    let ?r = "take (k - length (encode ?hc syms)) rest"
    from False have "take k (bits_of_bytes stream) = encode ?hc syms @ ?r"
      by (simp add: assms(4))
    moreover have "length syms < ?n \<longrightarrow> ?r = []" using assms(5) by simp
    ultimately have "decode_bits ?root ?n (take k (bits_of_bytes stream)) (?root, 0, []) =
        Inr (?root, length syms, syms)"
      using decode_valid_stream [OF assms(2,3), of ?r] by simp
    with root show ?thesis by blast
  qed
  have "decode_bits ?root ?n (bits_of_bytes stream) (?root, 0, []) =
      Inr (?root, length syms, syms)"
    unfolding assms(4) using assms(2,3,5) by (rule decode_valid_stream)
  then show "decodeData sgd ?root fm stream = Inr syms"
    using assms(3) by (auto simp: decodeData_bits)
qed

lemma cursor_example:
  "bits_of_bytes [0] =
     encode (code_table True [0x61 \<mapsto> 2]) [0x61, 0x61] @ [False, False, False, False, False, False]"
proof -
  have b: "bits_of_bytes [0] = [False, False, False, False, False, False, False, False]"
    by code_simp
  have e: "encode (code_table True [0x61 \<mapsto> 2]) [0x61, 0x61] = [False, False]"
    by (simp add: code_table_single code_of_def)
  show ?thesis by (simp only: b e) simp
qed

theorem cursor_never_null_witness:
  "[0x61 \<mapsto> 2] \<noteq> (Map.empty :: freq_map) \<and>
   set [0x61, 0x61] \<subseteq> dom [0x61 \<mapsto> 2 :: 32 word] \<and>
   length [0x61, 0x61 :: byte] = total_chars True [0x61 \<mapsto> 2] \<and>
   bits_of_bytes [0] =
     encode (code_table True [0x61 \<mapsto> 2]) [0x61, 0x61] @ [False, False, False, False, False, False] \<and>
   (\<exists>cur cnt out.
      decode_bits (buildHuffmanTree True [0x61 \<mapsto> 2]) (total_chars True [0x61 \<mapsto> 2])
        (take 3 (bits_of_bytes [0])) (buildHuffmanTree True [0x61 \<mapsto> 2], 0, []) =
        Inr (cur, cnt, out) \<and> cur \<noteq> Null) \<and>
   decodeData True (buildHuffmanTree True [0x61 \<mapsto> 2]) [0x61 \<mapsto> 2] [0] = Inr [0x61, 0x61]"
proof -
  have h1: "[0x61 \<mapsto> 2] \<noteq> (Map.empty :: freq_map)" by simp
  have h2: "set [0x61, 0x61] \<subseteq> dom [0x61 \<mapsto> 2 :: 32 word]" by simp
  have h3: "length [0x61, 0x61 :: byte] = total_chars True [0x61 \<mapsto> 2]" by simp
  then have h3': "length [0x61, 0x61 :: byte] \<le> total_chars True [0x61 \<mapsto> 2]"
    and h5: "length [0x61, 0x61 :: byte] < total_chars True [0x61 \<mapsto> 2] \<longrightarrow>
      [False, False, False, False, False, False] = []"
    by simp_all
  note t = cursor_never_null [OF h1 h2 h3' cursor_example h5, of 3]
  from t [THEN conjunct1] t [THEN conjunct2] h1 h2 h3 cursor_example show ?thesis
    by (intro conjI)
qed

subsection \<open>C10: the byte \<open>$\<close>\<close>

text \<open>
  C10. For every input that contains the byte \<open>$\<close> (0x24), compression and
  decompression are not affected by the payload \<open>$\<close> of the internal nodes. The code
  table has an entry for \<open>$\<close> whose code leads from the root to the leaf of \<open>$\<close>, which
  carries the frequency of \<open>$\<close> in the input; every entry of the code table belongs to a
  byte of the input and its code leads to a leaf that holds this byte, so no entry comes
  from an internal node. \<^verbatim>\<open>compress\<close> writes the header of the frequency table and then
  packs, for every byte of the input, \<open>$\<close> included, the code of that table, padded with
  fewer than eight zero bits. \<^verbatim>\<open>decompress\<close> of this file returns the bytes of the input,
  as many as the header declares: all of them when no byte value occurs \<open>2\<^sup>3\<^sup>2\<close> times
  or more.
\<close>

theorem dollar_is_an_ordinary_symbol:
  assumes "0x24 \<in> set S"
  shows "(\<exists>w f. code_table sgd (buildFrequencyTable S) 0x24 = Some w \<and>
            buildFrequencyTable S 0x24 = Some f \<and>
            walk (buildHuffmanTree sgd (buildFrequencyTable S)) (code_bits w) =
              Node 0x24 f Null Null) \<and>
         (\<forall>c w. code_table sgd (buildFrequencyTable S) c = Some w \<longrightarrow>
            c \<in> set S \<and>
            is_leaf (walk (buildHuffmanTree sgd (buildFrequencyTable S)) (code_bits w)) \<and>
            data (walk (buildHuffmanTree sgd (buildFrequencyTable S)) (code_bits w)) = c) \<and>
         compress sgd S =
           writeHeader sgd (buildFrequencyTable S) @
           writeCompressedData (code_table sgd (buildFrequencyTable S)) S \<and>
         (\<exists>p<8. bits_of_bytes (writeCompressedData (code_table sgd (buildFrequencyTable S)) S) =
            encode (code_table sgd (buildFrequencyTable S)) S @ replicate p False) \<and>
         decompress sgd (compress sgd S) =
           Inr (take (total_chars sgd (buildFrequencyTable S)) S) \<and>
         ((\<forall>c. count_list S c < 2 ^ 32) \<longrightarrow> decompress sgd (compress sgd S) = Inr S)"
proof (intro conjI allI impI)
  let ?fm = "buildFrequencyTable S"
  let ?root = "buildHuffmanTree sgd ?fm"
  from assms have ne: "S \<noteq> []" by auto
  from assms have "0x24 \<in> dom (code_table sgd ?fm)" by (simp add: dom_code_table)
  then obtain w where w: "code_table sgd ?fm 0x24 = Some w" by auto
  from code_table_walk [OF w] w
  show "\<exists>w f. code_table sgd ?fm 0x24 = Some w \<and> ?fm 0x24 = Some f \<and>
      walk ?root (code_bits w) = Node 0x24 f Null Null"
    by blast
  show "compress sgd S = writeHeader sgd ?fm @ writeCompressedData (code_table sgd ?fm) S"
    using ne by (simp add: compress_eq)
  have "\<forall>c\<in>set S. set (code_of (code_table sgd ?fm) c) \<subseteq> {CHR ''0'', CHR ''1''}"
    by (simp add: code_of_valid)
  then show "\<exists>p<8. bits_of_bytes (writeCompressedData (code_table sgd ?fm) S) =
      encode (code_table sgd ?fm) S @ replicate p False"
    by (rule writeCompressedData_bits)
  show "decompress sgd (compress sgd S) = Inr (take (total_chars sgd ?fm) S)"
    using ne by (rule round_trip_prefix)
  show "decompress sgd (compress sgd S) = Inr S" if "\<forall>c. count_list S c < 2 ^ 32"
    using ne that by (rule round_trip)
next
  fix c w
  assume w: "code_table sgd (buildFrequencyTable S) c = Some w"
  then have "c \<in> dom (code_table sgd (buildFrequencyTable S))" by auto
  then show "c \<in> set S" by (simp add: dom_code_table)
  from code_table_walk [OF w] obtain f where
    "walk (buildHuffmanTree sgd (buildFrequencyTable S)) (code_bits w) = Node c f Null Null"
    by blast
  then show "is_leaf (walk (buildHuffmanTree sgd (buildFrequencyTable S)) (code_bits w))"
    "data (walk (buildHuffmanTree sgd (buildFrequencyTable S)) (code_bits w)) = c"
    by simp_all
qed

text \<open>
  An input of three \<open>$\<close>, four \<open>a\<close>, five \<open>b\<close> and six \<open>c\<close>. The queue never holds two
  nodes of equal frequency; the root has the internal node over \<open>$\<close> and \<open>a\<close> on its left
  and the internal node over \<open>b\<close> and \<open>c\<close> on its right, so \<^verbatim>\<open>generateCodes\<close> visits an
  internal node after the leaf of \<open>$\<close>.
\<close>

lemma dollar_example:
  "code_table True (buildFrequencyTable
     [0x24, 0x61, 0x62, 0x63, 0x24, 0x61, 0x62, 0x63, 0x24, 0x61, 0x62, 0x63,
      0x61, 0x62, 0x63, 0x62, 0x63, 0x63]) 0x24 = Some ''00''"
  "code_table True (buildFrequencyTable
     [0x24, 0x61, 0x62, 0x63, 0x24, 0x61, 0x62, 0x63, 0x24, 0x61, 0x62, 0x63,
      0x61, 0x62, 0x63, 0x62, 0x63, 0x63]) 0x62 = Some ''10''"
  "buildFrequencyTable
     [0x24, 0x61, 0x62, 0x63, 0x24, 0x61, 0x62, 0x63, 0x24, 0x61, 0x62, 0x63,
      0x61, 0x62, 0x63, 0x62, 0x63, 0x63] 0x24 = Some 3"
  by code_simp+

theorem dollar_is_an_ordinary_symbol_witness:
  "0x24 \<in> set [0x24, 0x61, 0x62, 0x63, 0x24, 0x61, 0x62, 0x63, 0x24, 0x61, 0x62, 0x63,
      0x61, 0x62, 0x63, 0x62, 0x63, 0x63 :: byte] \<and>
   code_table True (buildFrequencyTable
     [0x24, 0x61, 0x62, 0x63, 0x24, 0x61, 0x62, 0x63, 0x24, 0x61, 0x62, 0x63,
      0x61, 0x62, 0x63, 0x62, 0x63, 0x63]) 0x24 = Some ''00'' \<and>
   walk (buildHuffmanTree True (buildFrequencyTable
     [0x24, 0x61, 0x62, 0x63, 0x24, 0x61, 0x62, 0x63, 0x24, 0x61, 0x62, 0x63,
      0x61, 0x62, 0x63, 0x62, 0x63, 0x63])) (code_bits ''00'') = Node 0x24 3 Null Null \<and>
   code_table True (buildFrequencyTable
     [0x24, 0x61, 0x62, 0x63, 0x24, 0x61, 0x62, 0x63, 0x24, 0x61, 0x62, 0x63,
      0x61, 0x62, 0x63, 0x62, 0x63, 0x63]) 0x62 = Some ''10'' \<and>
   is_leaf (walk (buildHuffmanTree True (buildFrequencyTable
     [0x24, 0x61, 0x62, 0x63, 0x24, 0x61, 0x62, 0x63, 0x24, 0x61, 0x62, 0x63,
      0x61, 0x62, 0x63, 0x62, 0x63, 0x63])) (code_bits ''10'')) \<and>
   data (walk (buildHuffmanTree True (buildFrequencyTable
     [0x24, 0x61, 0x62, 0x63, 0x24, 0x61, 0x62, 0x63, 0x24, 0x61, 0x62, 0x63,
      0x61, 0x62, 0x63, 0x62, 0x63, 0x63])) (code_bits ''10'')) = 0x62 \<and>
   (\<forall>c. count_list [0x24, 0x61, 0x62, 0x63, 0x24, 0x61, 0x62, 0x63, 0x24, 0x61, 0x62, 0x63,
      0x61, 0x62, 0x63, 0x62, 0x63, 0x63 :: byte] c < 2 ^ 32) \<and>
   decompress True (compress True
     [0x24, 0x61, 0x62, 0x63, 0x24, 0x61, 0x62, 0x63, 0x24, 0x61, 0x62, 0x63,
      0x61, 0x62, 0x63, 0x62, 0x63, 0x63]) =
     Inr [0x24, 0x61, 0x62, 0x63, 0x24, 0x61, 0x62, 0x63, 0x24, 0x61, 0x62, 0x63,
      0x61, 0x62, 0x63, 0x62, 0x63, 0x63]"
proof -
  let ?S = "[0x24, 0x61, 0x62, 0x63, 0x24, 0x61, 0x62, 0x63, 0x24, 0x61, 0x62, 0x63,
      0x61, 0x62, 0x63, 0x62, 0x63, 0x63 :: byte]"
  let ?root = "buildHuffmanTree True (buildFrequencyTable ?S)"
  have h: "0x24 \<in> set ?S" by simp
  have c: "\<forall>c. count_list ?S c < 2 ^ 32"
  proof
    fix c
    have "count_list ?S c \<le> length ?S" by (rule count_le_length)
    also have "\<dots> < 2 ^ 32" by simp
    finally show "count_list ?S c < 2 ^ 32" .
  qed
  note t = dollar_is_an_ordinary_symbol [OF h, of True]
  from t [THEN conjunct1] obtain w f where
    w: "code_table True (buildFrequencyTable ?S) 0x24 = Some w"
    and f: "buildFrequencyTable ?S 0x24 = Some f"
    and 1: "walk ?root (code_bits w) = Node 0x24 f Null Null"
    by blast
  from w f dollar_example have wf: "w = ''00''" "f = 3" by simp_all
  note u = t [THEN conjunct2, THEN conjunct1, rule_format, OF dollar_example(2)]
  note r = t [THEN conjunct2, THEN conjunct2, THEN conjunct2, THEN conjunct2, THEN conjunct2,
      THEN mp, OF c]
  from h dollar_example(1) 1 [unfolded wf] dollar_example(2)
    u [THEN conjunct2, THEN conjunct1] u [THEN conjunct2, THEN conjunct2] c r
  show ?thesis by (intro conjI)
qed

end
